theory Spec2Isabelle
  imports Complex_Main "HOL-Library.Word"
begin

unbundle bit_operations_syntax

section \<open>The on-demand all backup scheme (on\_demand\_all\_backup.hpp)\<close>

text \<open>
  The scheme's energy figures are C++ doubles. Every constant below is a dyadic rational
  with a handful of significant bits (\<open>0.03125 = 2\<^sup>-\<^sup>5\<close>, \<open>0.75\<close>, \<open>0.25\<close>), so the sum
  \<open>0.03125 + 0.75 + 0.25 = 1.03125\<close> is exact in double precision, and a comparison of a
  finite double with such a constant is the comparison of the two real numbers. Energies
  are therefore modelled as \<^typ>\<open>real\<close>.
\<close>

text \<open>
  Modelled from the spec: the class \<open>capacitor\<close> (capacitor.hpp) is not part of the
  sources at hand. The spec describes it as an energy store with \<open>energy_stored()\<close> and a
  \<open>consume\<close> operation that saturates at 0. The model keeps the stored energy itself.
\<close>

record capacitor =
  stored :: real

definition energy_stored :: "capacitor \<Rightarrow> real" where
  "energy_stored c = stored c"

definition consume_energy :: "real \<Rightarrow> capacitor \<Rightarrow> capacitor" where
  "consume_energy e c = c\<lparr>stored := max 0 (stored c - e)\<rparr>"

text \<open>
  Modelled from the spec: \<open>stats_bundle\<close> (stats.hpp) is not part of the sources at hand.
  The scheme touches \<open>stats->cpu.cycle_count\<close> and the fields \<open>instruction_energy\<close> and
  \<open>backup_times\<close> of the last element of \<open>stats->models\<close>; cycle counts are 64-bit
  unsigned, as the return type of \<open>backup\<close> is.
\<close>

record active_stats =
  instruction_energy :: real
  backup_times :: "64 word list"

record stats_bundle =
  cycle_count :: "64 word"
  models :: "active_stats list"

definition empty_active_stats :: active_stats where
  "empty_active_stats = \<lparr>instruction_energy = 0, backup_times = []\<rparr>"

text \<open>\<open>models.back()\<close> on an empty vector is undefined behaviour: the model has no result there.\<close>

definition update_back :: "(active_stats \<Rightarrow> active_stats) \<Rightarrow> active_stats list \<Rightarrow> active_stats list option" where
  "update_back f ms = (if ms = [] then None else Some (butlast ms @ [f (last ms)]))"

record on_demand_all_backup =
  battery :: capacitor
  last_cycle_count :: "64 word"

definition normal_running_energy :: real where
  "normal_running_energy = 0.03125"

definition backup_energy_penalty :: real where
  "backup_energy_penalty = 0.75"

definition backup_time_penalty :: "64 word" where
  "backup_time_penalty = 35"

definition recovery_energy_penalty :: real where
  "recovery_energy_penalty = 0.25"

definition restore_time_penalty :: "64 word" where
  "restore_time_penalty = 35"

definition is_active :: "on_demand_all_backup \<Rightarrow> bool" where
  "is_active sch \<longleftrightarrow>
     energy_stored (battery sch) >
       (normal_running_energy + backup_energy_penalty + recovery_energy_penalty)"

definition will_backup :: "on_demand_all_backup \<Rightarrow> stats_bundle \<Rightarrow> bool" where
  "will_backup sch stats \<longleftrightarrow> energy_stored (battery sch) > backup_energy_penalty"

definition backup ::
  "on_demand_all_backup \<Rightarrow> stats_bundle \<Rightarrow> (on_demand_all_backup \<times> stats_bundle \<times> 64 word) option" where
  "backup sch stats =
     (let sch1 = sch\<lparr>battery := consume_energy backup_energy_penalty (battery sch)\<rparr> in
      case update_back
             (\<lambda>m. m\<lparr>backup_times := backup_times m @ [cycle_count stats - last_cycle_count sch1]\<rparr>)
             (models stats) of
        None \<Rightarrow> None
      | Some ms \<Rightarrow>
          Some (sch1\<lparr>last_cycle_count := cycle_count stats\<rparr>, stats\<lparr>models := ms\<rparr>,
                backup_time_penalty))"

definition restore ::
  "on_demand_all_backup \<Rightarrow> stats_bundle \<Rightarrow> on_demand_all_backup \<times> stats_bundle \<times> 64 word" where
  "restore sch stats =
     (let sch1 = sch\<lparr>battery := consume_energy recovery_energy_penalty (battery sch)\<rparr> in
      (sch1, stats\<lparr>models := models stats @ [empty_active_stats]\<rparr>, restore_time_penalty))"


text \<open>
  Modelled from the spec: the driver that calls the scheme is not part of the sources at
  hand. The spec has it advance the cycle counter by the cost of each instruction and by
  the cycles that \<open>backup\<close> and \<open>restore\<close> return. A run is a sequence of such events.
\<close>

datatype event = Advance "64 word" | Backup | Restore

fun step ::
  "event \<Rightarrow> on_demand_all_backup \<times> stats_bundle \<Rightarrow> (on_demand_all_backup \<times> stats_bundle) option" where
  "step (Advance k) (sch, stats) = Some (sch, stats\<lparr>cycle_count := cycle_count stats + k\<rparr>)"
| "step Backup (sch, stats) =
     (case backup sch stats of
        None \<Rightarrow> None
      | Some (sch1, stats1, c) \<Rightarrow> Some (sch1, stats1\<lparr>cycle_count := cycle_count stats1 + c\<rparr>))"
| "step Restore (sch, stats) =
     (case restore sch stats of
        (sch1, stats1, c) \<Rightarrow> Some (sch1, stats1\<lparr>cycle_count := cycle_count stats1 + c\<rparr>))"

fun run ::
  "event list \<Rightarrow> on_demand_all_backup \<times> stats_bundle \<Rightarrow> (on_demand_all_backup \<times> stats_bundle) option" where
  "run [] cfg = Some cfg"
| "run (e # es) cfg = (case step e cfg of None \<Rightarrow> None | Some cfg1 \<Rightarrow> run es cfg1)"

definition recorded_intervals ::
  "(on_demand_all_backup \<times> stats_bundle) option \<Rightarrow> 64 word list list option" where
  "recorded_intervals r = map_option (\<lambda>(sch, stats). map backup_times (models stats)) r"

definition all_intervals :: "stats_bundle \<Rightarrow> 64 word list" where
  "all_intervals stats = concat (map backup_times (models stats))"

text \<open>
  The intervals as the spec words them, for comparison with the code: each backup records
  the cycles elapsed since the previous event of the same active period, which is the
  previous backup or, for the first backup after a restore, the restore that opened the
  period. The arguments are the cycle counter, the cycle count at the previous event and
  the interval lists of the records so far.
\<close>

fun spec_intervals ::
  "event list \<Rightarrow> 64 word \<Rightarrow> 64 word \<Rightarrow> 64 word list list \<Rightarrow> 64 word list list option" where
  "spec_intervals [] cc prev ms = Some ms"
| "spec_intervals (Advance k # es) cc prev ms = spec_intervals es (cc + k) prev ms"
| "spec_intervals (Backup # es) cc prev ms =
     (if ms = [] then None
      else spec_intervals es (cc + backup_time_penalty) cc (butlast ms @ [last ms @ [cc - prev]]))"
| "spec_intervals (Restore # es) cc prev ms =
     spec_intervals es (cc + restore_time_penalty) cc (ms @ [[]])"


text \<open>
  The cycle count at the most recent backup of a run, read off the events alone. The
  arguments are the cycle counter and the reference before the run: a backup makes the
  current cycle count the reference; advancing the counter and restoring leave the
  reference as it is.
\<close>

fun previous_backup_cycle :: "event list \<Rightarrow> 64 word \<Rightarrow> 64 word \<Rightarrow> 64 word" where
  "previous_backup_cycle [] cc ref = ref"
| "previous_backup_cycle (Advance k # es) cc ref = previous_backup_cycle es (cc + k) ref"
| "previous_backup_cycle (Backup # es) cc ref =
     previous_backup_cycle es (cc + backup_time_penalty) cc"
| "previous_backup_cycle (Restore # es) cc ref =
     previous_backup_cycle es (cc + restore_time_penalty) ref"

text \<open>
  The intervals measured from the previous backup, whichever active period it belonged
  to: each backup appends to the last record the cycles elapsed since the previous backup
  of the run (since the initial reference when there was none); a restore opens an empty
  record and does not move the reference. The arguments are those of \<open>spec_intervals\<close>.
\<close>

fun intervals_since_previous_backup ::
  "event list \<Rightarrow> 64 word \<Rightarrow> 64 word \<Rightarrow> 64 word list list \<Rightarrow> 64 word list list option" where
  "intervals_since_previous_backup [] cc prev ms = Some ms"
| "intervals_since_previous_backup (Advance k # es) cc prev ms =
     intervals_since_previous_backup es (cc + k) prev ms"
| "intervals_since_previous_backup (Backup # es) cc prev ms =
     (if ms = [] then None
      else intervals_since_previous_backup es (cc + backup_time_penalty) cc
             (butlast ms @ [last ms @ [cc - prev]]))"
| "intervals_since_previous_backup (Restore # es) cc prev ms =
     intervals_since_previous_backup es (cc + restore_time_penalty) prev (ms @ [[]])"


section \<open>CPU state, decoded instructions and the memory interface\<close>

text \<open>
  Modelled from the spec: \<open>decode_result\<close>, the register accessors \<open>cpu_get_gpr\<close>,
  \<open>cpu_set_gpr\<close>, \<open>cpu_get_sp\<close>, \<open>cpu_set_sp\<close>, \<open>cpu_get_pc\<close>, the flag
  \<open>BRANCH_WAS_TAKEN\<close>, the timing constants and \<open>terminate_simulation\<close> are declared in
  headers that are not part of the sources at hand. The spec gives sixteen 32-bit
  registers with r13 = SP, r14 = LR, r15 = PC, a branch-taken flag, 2 cycles for a single
  memory access and for a PC update, and a fatal malformed-instruction fault. Register
  numbers are natural numbers; the immediate and the register list are 32-bit.
\<close>

record decode_result =
  Rd :: nat
  Rm :: nat
  Rn :: nat
  imm :: "32 word"
  register_list :: "32 word"

datatype mem_event = LoadEvent "32 word" "32 word" | StoreEvent "32 word" "32 word"

datatype region = RAM | ROM | Unmapped

datatype fault = MalformedInstruction | MemoryFault "32 word"

record machine =
  gpr :: "nat \<Rightarrow> 32 word"
  BRANCH_WAS_TAKEN :: bool
  cells :: "32 word \<Rightarrow> 32 word"
  region_of :: "32 word \<Rightarrow> region"
  accesses :: "mem_event list"

definition cpu_get_gpr :: "nat \<Rightarrow> machine \<Rightarrow> 32 word" where
  "cpu_get_gpr x s = gpr s x"

definition cpu_set_gpr :: "nat \<Rightarrow> 32 word \<Rightarrow> machine \<Rightarrow> machine" where
  "cpu_set_gpr x y s = s\<lparr>gpr := (gpr s)(x := y)\<rparr>"

definition cpu_get_sp :: "machine \<Rightarrow> 32 word" where
  "cpu_get_sp s = cpu_get_gpr 13 s"

definition cpu_set_sp :: "32 word \<Rightarrow> machine \<Rightarrow> machine" where
  "cpu_set_sp y s = cpu_set_gpr 13 y s"

definition cpu_get_pc :: "machine \<Rightarrow> 32 word" where
  "cpu_get_pc s = cpu_get_gpr 15 s"

definition TIMING_MEM :: "32 word" where
  "TIMING_MEM = 2"

definition TIMING_PC_UPDATE :: "32 word" where
  "TIMING_PC_UPDATE = 2"

definition zeroExtend32 :: "32 word \<Rightarrow> 32 word" where
  "zeroExtend32 x = x"

definition signExtend32 :: "32 word \<Rightarrow> nat \<Rightarrow> 32 word" where
  "signExtend32 x n = signed_take_bit (n - 1) x"

text \<open>
  Modelled from the spec: \<open>load\<close> and \<open>store\<close> (thumbulator/memory.hpp) are not part of
  the sources at hand. The spec gives a mapping from addresses to 32-bit words with a
  read/write RAM range and a read-only ROM range; a store to ROM and any access to an
  unmapped address is a fatal memory fault that reports the address. The third argument
  of \<open>load\<close> tells a plain read (0) from the read of a read-modify-write (1). Every call
  is recorded in \<open>accesses\<close>, the sequence of events an access hook would observe.
\<close>

definition load :: "32 word \<Rightarrow> 32 word \<Rightarrow> machine \<Rightarrow> fault + (32 word \<times> machine)" where
  "load address false_read s =
     (if region_of s address = Unmapped then Inl (MemoryFault address)
      else Inr (cells s address, s\<lparr>accesses := accesses s @ [LoadEvent address false_read]\<rparr>))"

definition store :: "32 word \<Rightarrow> 32 word \<Rightarrow> machine \<Rightarrow> fault + machine" where
  "store address v s =
     (if region_of s address = RAM
      then Inr (s\<lparr>cells := (cells s)(address := v),
                  accesses := accesses s @ [StoreEvent address v]\<rparr>)
      else Inl (MemoryFault address))"

fun event_address :: "mem_event \<Rightarrow> 32 word" where
  "event_address (LoadEvent a f) = a"
| "event_address (StoreEvent a v) = a"


section \<open>Load/store multiple and stack operations (exmemwb\_mem.cpp)\<close>

function ldm_loop ::
  "decode_result \<Rightarrow> nat \<Rightarrow> 32 word \<Rightarrow> 32 word \<Rightarrow> machine \<Rightarrow> fault + (32 word \<times> 32 word \<times> machine)" where
  "ldm_loop decoded i address numLoaded s =
     (if i < 8 then
        (if register_list decoded AND push_bit i 1 \<noteq> 0 then
           (case load address 0 s of
              Inl e \<Rightarrow> Inl e
            | Inr (data, s1) \<Rightarrow>
                ldm_loop decoded (i + 1) (address + 4) (numLoaded + 1) (cpu_set_gpr i data s1))
         else ldm_loop decoded (i + 1) address numLoaded s)
      else Inr (address, numLoaded, s))"
  by pat_completeness auto
termination
  by (relation "measure (\<lambda>(decoded, i, address, numLoaded, s). 8 - i)") auto

declare ldm_loop.simps [simp del]

definition ldm :: "decode_result \<Rightarrow> machine \<Rightarrow> fault + (machine \<times> 32 word)" where
  "ldm decoded s =
     (let rNWritten = push_bit (Rn decoded) 1 AND register_list decoded;
          address = cpu_get_gpr (Rn decoded) s
      in case ldm_loop decoded 0 address 0 s of
           Inl e \<Rightarrow> Inl e
         | Inr (address1, numLoaded, s1) \<Rightarrow>
             Inr (if rNWritten = 0 then cpu_set_gpr (Rn decoded) address1 s1 else s1,
                  1 + numLoaded))"

function stm_loop ::
  "decode_result \<Rightarrow> nat \<Rightarrow> 32 word \<Rightarrow> 32 word \<Rightarrow> machine \<Rightarrow> fault + (32 word \<times> 32 word \<times> machine)" where
  "stm_loop decoded i address numStored s =
     (if i < 8 then
        (if register_list decoded AND push_bit i 1 \<noteq> 0 then
           (if i = Rn decoded \<and> numStored = 0 then Inl MalformedInstruction
            else
              (let data = cpu_get_gpr i s in
               case store address data s of
                 Inl e \<Rightarrow> Inl e
               | Inr s1 \<Rightarrow> stm_loop decoded (i + 1) (address + 4) (numStored + 1) s1))
         else stm_loop decoded (i + 1) address numStored s)
      else Inr (address, numStored, s))"
  by pat_completeness auto
termination
  by (relation "measure (\<lambda>(decoded, i, address, numStored, s). 8 - i)") auto

declare stm_loop.simps [simp del]

definition stm :: "decode_result \<Rightarrow> machine \<Rightarrow> fault + (machine \<times> 32 word)" where
  "stm decoded s =
     (let address = cpu_get_gpr (Rn decoded) s
      in case stm_loop decoded 0 address 0 s of
           Inl e \<Rightarrow> Inl e
         | Inr (address1, numStored, s1) \<Rightarrow>
             Inr (cpu_set_gpr (Rn decoded) address1 s1, 1 + numStored))"

text \<open>
  The loop of \<open>pop\<close> runs \<open>i\<close> from 0 to 15 and sets \<open>i\<close> to 14 at the end of the round
  \<open>i = 7\<close>, so that the increment continues at 15.
\<close>

function pop_loop ::
  "decode_result \<Rightarrow> nat \<Rightarrow> 32 word \<Rightarrow> 32 word \<Rightarrow> machine \<Rightarrow> fault + (32 word \<times> 32 word \<times> machine)" where
  "pop_loop decoded i address numLoaded s =
     (if i < 16 then
        (if register_list decoded AND push_bit i 1 \<noteq> 0 then
           (case load address 0 s of
              Inl e \<Rightarrow> Inl e
            | Inr (data, s1) \<Rightarrow>
                (let s2 = cpu_set_gpr i data s1;
                     s3 = (if i = 15 then s2\<lparr>BRANCH_WAS_TAKEN := True\<rparr> else s2)
                 in pop_loop decoded ((if i = 7 then 14 else i) + 1) (address + 4)
                      (numLoaded + 1) s3))
         else pop_loop decoded ((if i = 7 then 14 else i) + 1) address numLoaded s)
      else Inr (address, numLoaded, s))"
  by pat_completeness auto
termination
  by (relation "measure (\<lambda>(decoded, i, address, numLoaded, s). 16 - i)") auto

declare pop_loop.simps [simp del]

text \<open>
  The return expression \<open>1 + numLoaded + BRANCH_WAS_TAKEN ? TIMING_PC_UPDATE : 0\<close> is parsed
  by C++ as \<open>(1 + numLoaded + BRANCH_WAS_TAKEN) ? TIMING_PC_UPDATE : 0\<close>: the conditional
  operator binds weaker than \<open>+\<close>.
\<close>

definition pop :: "decode_result \<Rightarrow> machine \<Rightarrow> fault + (machine \<times> 32 word)" where
  "pop decoded s =
     (let address = cpu_get_sp s
      in case pop_loop decoded 0 address 0 s of
           Inl e \<Rightarrow> Inl e
         | Inr (address1, numLoaded, s1) \<Rightarrow>
             (let s2 = cpu_set_sp address1 s1
              in Inr (s2, if 1 + numLoaded + of_bool (BRANCH_WAS_TAKEN s2) \<noteq> 0
                          then TIMING_PC_UPDATE else 0)))"

text \<open>
  The loop of \<open>push\<close> runs the signed \<open>i\<close> from 14 down to 0 and sets \<open>i\<close> to 8 at the end
  of the round \<open>i = 14\<close>, so that the decrement continues at 7.
\<close>

function push_loop ::
  "decode_result \<Rightarrow> int \<Rightarrow> 32 word \<Rightarrow> 32 word \<Rightarrow> machine \<Rightarrow> fault + (32 word \<times> 32 word \<times> machine)" where
  "push_loop decoded i address numStored s =
     (if i \<ge> 0 then
        (if register_list decoded AND push_bit (nat i) 1 \<noteq> 0 then
           (let address1 = address - 4;
                data = cpu_get_gpr (nat i) s
            in case store address1 data s of
                 Inl e \<Rightarrow> Inl e
               | Inr s1 \<Rightarrow>
                   push_loop decoded ((if i = 14 then 8 else i) - 1) address1 (numStored + 1) s1)
         else push_loop decoded ((if i = 14 then 8 else i) - 1) address numStored s)
      else Inr (address, numStored, s))"
  by pat_completeness auto
termination
  by (relation "measure (\<lambda>(decoded, i, address, numStored, s). nat (i + 1))") auto

declare push_loop.simps [simp del]

definition push :: "decode_result \<Rightarrow> machine \<Rightarrow> fault + (machine \<times> 32 word)" where
  "push decoded s =
     (let address = cpu_get_sp s
      in case push_loop decoded 14 address 0 s of
           Inl e \<Rightarrow> Inl e
         | Inr (address1, numStored, s1) \<Rightarrow> Inr (cpu_set_sp address1 s1, 1 + numStored))"


section \<open>Single load operations (exmemwb\_mem.cpp)\<close>

text \<open>
  A \<open>switch\<close> without a \<open>default\<close> label leaves the value as it is when no label
  matches; the chains of \<open>if\<close> below keep that branch.
\<close>

definition ldr_i :: "decode_result \<Rightarrow> machine \<Rightarrow> fault + (machine \<times> 32 word)" where
  "ldr_i decoded s =
     (let base = cpu_get_gpr (Rn decoded) s;
          offset = zeroExtend32 (push_bit 2 (imm decoded));
          effectiveAddress = base + offset
      in case load effectiveAddress 0 s of
           Inl e \<Rightarrow> Inl e
         | Inr (result, s1) \<Rightarrow> Inr (cpu_set_gpr (Rd decoded) result s1, TIMING_MEM))"

definition ldr_sp :: "decode_result \<Rightarrow> machine \<Rightarrow> fault + (machine \<times> 32 word)" where
  "ldr_sp decoded s =
     (let base = cpu_get_sp s;
          offset = zeroExtend32 (push_bit 2 (imm decoded));
          effectiveAddress = base + offset
      in case load effectiveAddress 0 s of
           Inl e \<Rightarrow> Inl e
         | Inr (result, s1) \<Rightarrow> Inr (cpu_set_gpr (Rd decoded) result s1, TIMING_MEM))"

definition ldr_lit :: "decode_result \<Rightarrow> machine \<Rightarrow> fault + (machine \<times> 32 word)" where
  "ldr_lit decoded s =
     (let base = cpu_get_pc s AND 0xFFFFFFFC;
          offset = zeroExtend32 (push_bit 2 (imm decoded));
          effectiveAddress = base + offset
      in case load effectiveAddress 0 s of
           Inl e \<Rightarrow> Inl e
         | Inr (result, s1) \<Rightarrow> Inr (cpu_set_gpr (Rd decoded) result s1, TIMING_MEM))"

definition ldr_r :: "decode_result \<Rightarrow> machine \<Rightarrow> fault + (machine \<times> 32 word)" where
  "ldr_r decoded s =
     (let base = cpu_get_gpr (Rn decoded) s;
          offset = cpu_get_gpr (Rm decoded) s;
          effectiveAddress = base + offset
      in case load effectiveAddress 0 s of
           Inl e \<Rightarrow> Inl e
         | Inr (result, s1) \<Rightarrow> Inr (cpu_set_gpr (Rd decoded) result s1, TIMING_MEM))"

definition ldrb_i :: "decode_result \<Rightarrow> machine \<Rightarrow> fault + (machine \<times> 32 word)" where
  "ldrb_i decoded s =
     (let base = cpu_get_gpr (Rn decoded) s;
          offset = zeroExtend32 (imm decoded);
          effectiveAddress = base + offset;
          effectiveAddressWordAligned = effectiveAddress AND NOT 3
      in case load effectiveAddressWordAligned 0 s of
           Inl e \<Rightarrow> Inl e
         | Inr (result, s1) \<Rightarrow>
             (let result1 =
                    (if effectiveAddress AND 3 = 0 then result
                     else if effectiveAddress AND 3 = 1 then drop_bit 8 result
                     else if effectiveAddress AND 3 = 2 then drop_bit 16 result
                     else if effectiveAddress AND 3 = 3 then drop_bit 24 result
                     else result);
                  result2 = zeroExtend32 (result1 AND 0xFF)
              in Inr (cpu_set_gpr (Rd decoded) result2 s1, TIMING_MEM)))"

definition ldrb_r :: "decode_result \<Rightarrow> machine \<Rightarrow> fault + (machine \<times> 32 word)" where
  "ldrb_r decoded s =
     (let base = cpu_get_gpr (Rn decoded) s;
          offset = cpu_get_gpr (Rm decoded) s;
          effectiveAddress = base + offset;
          effectiveAddressWordAligned = effectiveAddress AND NOT 3
      in case load effectiveAddressWordAligned 0 s of
           Inl e \<Rightarrow> Inl e
         | Inr (result, s1) \<Rightarrow>
             (let result1 =
                    (if effectiveAddress AND 3 = 0 then result
                     else if effectiveAddress AND 3 = 1 then drop_bit 8 result
                     else if effectiveAddress AND 3 = 2 then drop_bit 16 result
                     else if effectiveAddress AND 3 = 3 then drop_bit 24 result
                     else result);
                  result2 = zeroExtend32 (result1 AND 0xFF)
              in Inr (cpu_set_gpr (Rd decoded) result2 s1, TIMING_MEM)))"

definition ldrh_i :: "decode_result \<Rightarrow> machine \<Rightarrow> fault + (machine \<times> 32 word)" where
  "ldrh_i decoded s =
     (let base = cpu_get_gpr (Rn decoded) s;
          offset = zeroExtend32 (push_bit 1 (imm decoded));
          effectiveAddress = base + offset;
          effectiveAddressWordAligned = effectiveAddress AND NOT 3
      in case load effectiveAddressWordAligned 0 s of
           Inl e \<Rightarrow> Inl e
         | Inr (result, s1) \<Rightarrow>
             (let result1 =
                    (if effectiveAddress AND 2 = 0 then result
                     else drop_bit 16 result);
                  result2 = zeroExtend32 (result1 AND 0xFFFF)
              in Inr (cpu_set_gpr (Rd decoded) result2 s1, TIMING_MEM)))"

definition ldrh_r :: "decode_result \<Rightarrow> machine \<Rightarrow> fault + (machine \<times> 32 word)" where
  "ldrh_r decoded s =
     (let base = cpu_get_gpr (Rn decoded) s;
          offset = cpu_get_gpr (Rm decoded) s;
          effectiveAddress = base + offset;
          effectiveAddressWordAligned = effectiveAddress AND NOT 3
      in case load effectiveAddressWordAligned 0 s of
           Inl e \<Rightarrow> Inl e
         | Inr (result, s1) \<Rightarrow>
             (let result1 =
                    (if effectiveAddress AND 2 = 0 then result
                     else drop_bit 16 result);
                  result2 = zeroExtend32 (result1 AND 0xFFFF)
              in Inr (cpu_set_gpr (Rd decoded) result2 s1, TIMING_MEM)))"

definition ldrsb_r :: "decode_result \<Rightarrow> machine \<Rightarrow> fault + (machine \<times> 32 word)" where
  "ldrsb_r decoded s =
     (let base = cpu_get_gpr (Rn decoded) s;
          offset = cpu_get_gpr (Rm decoded) s;
          effectiveAddress = base + offset;
          effectiveAddressWordAligned = effectiveAddress AND NOT 3
      in case load effectiveAddressWordAligned 0 s of
           Inl e \<Rightarrow> Inl e
         | Inr (result, s1) \<Rightarrow>
             (let result1 =
                    (if effectiveAddress AND 3 = 0 then result
                     else if effectiveAddress AND 3 = 1 then drop_bit 8 result
                     else if effectiveAddress AND 3 = 2 then drop_bit 16 result
                     else if effectiveAddress AND 3 = 3 then drop_bit 24 result
                     else result);
                  result2 = signExtend32 (result1 AND 0xFF) 8
              in Inr (cpu_set_gpr (Rd decoded) result2 s1, TIMING_MEM)))"

definition ldrsh_r :: "decode_result \<Rightarrow> machine \<Rightarrow> fault + (machine \<times> 32 word)" where
  "ldrsh_r decoded s =
     (let base = cpu_get_gpr (Rn decoded) s;
          offset = cpu_get_gpr (Rm decoded) s;
          effectiveAddress = base + offset;
          effectiveAddressWordAligned = effectiveAddress AND NOT 3
      in case load effectiveAddressWordAligned 0 s of
           Inl e \<Rightarrow> Inl e
         | Inr (result, s1) \<Rightarrow>
             (let result1 =
                    (if effectiveAddress AND 2 = 0 then result
                     else drop_bit 16 result);
                  result2 = signExtend32 (result1 AND 0xFFFF) 16
              in Inr (cpu_set_gpr (Rd decoded) result2 s1, TIMING_MEM)))"


section \<open>Single store operations (exmemwb\_mem.cpp)\<close>

definition str_i :: "decode_result \<Rightarrow> machine \<Rightarrow> fault + (machine \<times> 32 word)" where
  "str_i decoded s =
     (let base = cpu_get_gpr (Rn decoded) s;
          offset = zeroExtend32 (push_bit 2 (imm decoded));
          effectiveAddress = base + offset
      in case store effectiveAddress (cpu_get_gpr (Rd decoded) s) s of
           Inl e \<Rightarrow> Inl e
         | Inr s1 \<Rightarrow> Inr (s1, TIMING_MEM))"

definition str_sp :: "decode_result \<Rightarrow> machine \<Rightarrow> fault + (machine \<times> 32 word)" where
  "str_sp decoded s =
     (let base = cpu_get_sp s;
          offset = zeroExtend32 (push_bit 2 (imm decoded));
          effectiveAddress = base + offset
      in case store effectiveAddress (cpu_get_gpr (Rd decoded) s) s of
           Inl e \<Rightarrow> Inl e
         | Inr s1 \<Rightarrow> Inr (s1, TIMING_MEM))"

definition str_r :: "decode_result \<Rightarrow> machine \<Rightarrow> fault + (machine \<times> 32 word)" where
  "str_r decoded s =
     (let base = cpu_get_gpr (Rn decoded) s;
          offset = cpu_get_gpr (Rm decoded) s;
          effectiveAddress = base + offset
      in case store effectiveAddress (cpu_get_gpr (Rd decoded) s) s of
           Inl e \<Rightarrow> Inl e
         | Inr s1 \<Rightarrow> Inr (s1, TIMING_MEM))"

definition strb_i :: "decode_result \<Rightarrow> machine \<Rightarrow> fault + (machine \<times> 32 word)" where
  "strb_i decoded s =
     (let base = cpu_get_gpr (Rn decoded) s;
          offset = zeroExtend32 (imm decoded);
          effectiveAddress = base + offset;
          effectiveAddressWordAligned = effectiveAddress AND NOT 3;
          data = cpu_get_gpr (Rd decoded) s AND 0xFF
      in case load effectiveAddressWordAligned 1 s of
           Inl e \<Rightarrow> Inl e
         | Inr (orig, s1) \<Rightarrow>
             (let orig1 =
                    (if effectiveAddress AND 3 = 0 then (orig AND 0xFFFFFF00) OR push_bit 0 data
                     else if effectiveAddress AND 3 = 1 then (orig AND 0xFFFF00FF) OR push_bit 8 data
                     else if effectiveAddress AND 3 = 2 then (orig AND 0xFF00FFFF) OR push_bit 16 data
                     else if effectiveAddress AND 3 = 3 then (orig AND 0x00FFFFFF) OR push_bit 24 data
                     else orig)
              in case store effectiveAddressWordAligned orig1 s1 of
                   Inl e \<Rightarrow> Inl e
                 | Inr s2 \<Rightarrow> Inr (s2, TIMING_MEM)))"

definition strb_r :: "decode_result \<Rightarrow> machine \<Rightarrow> fault + (machine \<times> 32 word)" where
  "strb_r decoded s =
     (let base = cpu_get_gpr (Rn decoded) s;
          offset = cpu_get_gpr (Rm decoded) s;
          effectiveAddress = base + offset;
          effectiveAddressWordAligned = effectiveAddress AND NOT 3;
          data = cpu_get_gpr (Rd decoded) s AND 0xFF
      in case load effectiveAddressWordAligned 1 s of
           Inl e \<Rightarrow> Inl e
         | Inr (orig, s1) \<Rightarrow>
             (let orig1 =
                    (if effectiveAddress AND 3 = 0 then (orig AND 0xFFFFFF00) OR push_bit 0 data
                     else if effectiveAddress AND 3 = 1 then (orig AND 0xFFFF00FF) OR push_bit 8 data
                     else if effectiveAddress AND 3 = 2 then (orig AND 0xFF00FFFF) OR push_bit 16 data
                     else if effectiveAddress AND 3 = 3 then (orig AND 0x00FFFFFF) OR push_bit 24 data
                     else orig)
              in case store effectiveAddressWordAligned orig1 s1 of
                   Inl e \<Rightarrow> Inl e
                 | Inr s2 \<Rightarrow> Inr (s2, TIMING_MEM)))"

definition strh_i :: "decode_result \<Rightarrow> machine \<Rightarrow> fault + (machine \<times> 32 word)" where
  "strh_i decoded s =
     (let base = cpu_get_gpr (Rn decoded) s;
          offset = zeroExtend32 (push_bit 1 (imm decoded));
          effectiveAddress = base + offset;
          effectiveAddressWordAligned = effectiveAddress AND NOT 3;
          data = cpu_get_gpr (Rd decoded) s AND 0xFFFF
      in case load effectiveAddressWordAligned 1 s of
           Inl e \<Rightarrow> Inl e
         | Inr (orig, s1) \<Rightarrow>
             (let orig1 =
                    (if effectiveAddress AND 2 = 0 then (orig AND 0xFFFF0000) OR push_bit 0 data
                     else (orig AND 0x0000FFFF) OR push_bit 16 data)
              in case store effectiveAddressWordAligned orig1 s1 of
                   Inl e \<Rightarrow> Inl e
                 | Inr s2 \<Rightarrow> Inr (s2, TIMING_MEM)))"

definition strh_r :: "decode_result \<Rightarrow> machine \<Rightarrow> fault + (machine \<times> 32 word)" where
  "strh_r decoded s =
     (let base = cpu_get_gpr (Rn decoded) s;
          offset = cpu_get_gpr (Rm decoded) s;
          effectiveAddress = base + offset;
          effectiveAddressWordAligned = effectiveAddress AND NOT 3;
          data = cpu_get_gpr (Rd decoded) s AND 0xFFFF
      in case load effectiveAddressWordAligned 1 s of
           Inl e \<Rightarrow> Inl e
         | Inr (orig, s1) \<Rightarrow>
             (let orig1 =
                    (if effectiveAddress AND 2 = 0 then (orig AND 0xFFFF0000) OR push_bit 0 data
                     else (orig AND 0x0000FFFF) OR push_bit 16 data)
              in case store effectiveAddressWordAligned orig1 s1 of
                   Inl e \<Rightarrow> Inl e
                 | Inr s2 \<Rightarrow> Inr (s2, TIMING_MEM)))"


section \<open>Notions used to state the properties of the handlers\<close>

text \<open>Byte lane \<open>k\<close> (0 to 3) of a word: the byte at bit position \<open>8 * k\<close>.\<close>

definition lane :: "nat \<Rightarrow> 32 word \<Rightarrow> 32 word" where
  "lane k w = drop_bit (8 * k) w AND 0xFF"

text \<open>The word \<open>orig\<close> with byte lane \<open>j\<close> replaced by the low byte of \<open>v\<close>.\<close>

definition splice :: "nat \<Rightarrow> 32 word \<Rightarrow> 32 word \<Rightarrow> 32 word" where
  "splice j orig v = (orig AND NOT (push_bit (8 * j) (mask 8))) OR push_bit (8 * j) (v AND mask 8)"

definition aligned :: "32 word \<Rightarrow> bool" where
  "aligned a \<longleftrightarrow> a AND 3 = 0"

text \<open>
  The addresses that a handler started in state \<open>s\<close> has handed to \<open>load\<close> and \<open>store\<close>,
  read off its outcome: the events added to \<open>accesses\<close> when it returns, the address the
  fault reports when the memory interface stops the run.
\<close>

fun passed :: "machine \<Rightarrow> fault + (machine \<times> 32 word) \<Rightarrow> 32 word list" where
  "passed s (Inr (s1, c)) = map event_address (drop (length (accesses s)) (accesses s1))"
| "passed s (Inl (MemoryFault a)) = [a]"
| "passed s (Inl MalformedInstruction) = []"

text \<open>
  A concrete machine for the worked examples: 64 KiB of ROM at address 0, 64 KiB of RAM at
  \<open>0x20000000\<close>, every cell holding \<open>0x11223344\<close>, r1 = \<open>0x20000001\<close>, r2 = \<open>0xABCD\<close>,
  SP = \<open>0x20000100\<close>, LR = \<open>0x00000101\<close>, PC = \<open>0x00000042\<close>.
\<close>

definition example_region :: "32 word \<Rightarrow> region" where
  "example_region a =
     (if a < 0x10000 then ROM
      else if 0x20000000 \<le> a \<and> a < 0x20010000 then RAM
      else Unmapped)"

definition example_machine :: machine where
  "example_machine =
     \<lparr>gpr = (\<lambda>r. 0)(1 := 0x20000001, 2 := 0xABCD, 13 := 0x20000100, 14 := 0x101, 15 := 0x42),
      BRANCH_WAS_TAKEN = False,
      cells = (\<lambda>a. 0x11223344),
      region_of = example_region,
      accesses = []\<rparr>"


text \<open>
  The cycle cost of \<open>pop\<close> as the spec words it, for comparison with the code: one cycle,
  one more for each register transferred, and the PC-update cost when PC is among them.
\<close>

definition transferred_by_pop :: "32 word \<Rightarrow> nat list" where
  "transferred_by_pop rl = filter (bit rl) ([0..<8] @ [15])"

definition pop_cycles_spec :: "32 word \<Rightarrow> 32 word" where
  "pop_cycles_spec rl =
     1 + of_nat (length (transferred_by_pop rl)) + (if bit rl 15 then TIMING_PC_UPDATE else 0)"


text \<open>
  The registers among r0 to r7 that a register list names, in ascending order, and the
  transfers of \<open>ldm\<close> and \<open>stm\<close> as the spec words them, for comparison with the loops
  of the code: the listed registers are moved one after the other, in ascending order,
  from or to consecutive ascending word addresses.
\<close>

definition transfer_list :: "32 word \<Rightarrow> nat list" where
  "transfer_list rl = filter (bit rl) [0..<8]"

fun load_regs :: "nat list \<Rightarrow> 32 word \<Rightarrow> machine \<Rightarrow> machine" where
  "load_regs [] a s = s"
| "load_regs (r # rs) a s =
     load_regs rs (a + 4)
       (s\<lparr>accesses := accesses s @ [LoadEvent a 0], gpr := (gpr s)(r := cells s a)\<rparr>)"


fun store_regs :: "nat list \<Rightarrow> 32 word \<Rightarrow> machine \<Rightarrow> machine" where
  "store_regs [] a s = s"
| "store_regs (r # rs) a s =
     store_regs rs (a + 4)
       (s\<lparr>cells := (cells s)(a := gpr s r), accesses := accesses s @ [StoreEvent a (gpr s r)]\<rparr>)"


section \<open>Properties of the on-demand all backup scheme\<close>

text \<open>
  C9. The scheme is active exactly when the battery's stored energy is strictly greater
  than the energy of one instruction plus the backup and the restore penalty, that is
  strictly greater than \<open>0.03125 + 0.75 + 0.25 = 1.03125\<close>.
\<close>

theorem is_active_iff_reserve:
  "is_active sch =
     (energy_stored (battery sch) >
        normal_running_energy + backup_energy_penalty + recovery_energy_penalty)
   \<and> normal_running_energy + backup_energy_penalty + recovery_energy_penalty = 1.03125
   \<and> is_active sch = (stored (battery sch) > 1.03125)"
  by (simp add: is_active_def energy_stored_def normal_running_energy_def
      backup_energy_penalty_def recovery_energy_penalty_def)


text \<open>
  C3 as stated: \<open>will_backup\<close> is true only when the stored energy no longer suffices for
  continued execution. With a stored energy of 2 the scheme is active (the energy covers
  an instruction and both penalties), and \<open>will_backup\<close> is true all the same.
\<close>

theorem will_backup_only_when_low_counterexample:
  "is_active \<lparr>battery = \<lparr>stored = 2\<rparr>, last_cycle_count = 0\<rparr>
   \<and> will_backup \<lparr>battery = \<lparr>stored = 2\<rparr>, last_cycle_count = 0\<rparr>
        \<lparr>cycle_count = 0, models = [empty_active_stats]\<rparr>
   \<and> \<not> will_backup \<lparr>battery = \<lparr>stored = 0.5\<rparr>, last_cycle_count = 0\<rparr>
        \<lparr>cycle_count = 0, models = [empty_active_stats]\<rparr>"
  by (simp add: is_active_def will_backup_def energy_stored_def normal_running_energy_def
      backup_energy_penalty_def recovery_energy_penalty_def)

text \<open>
  C3 as amended: \<open>will_backup\<close> is true exactly when the stored energy is strictly greater
  than the backup energy penalty 0.75, whatever the statistics are; so it is true whenever
  the scheme is active, and false only when a backup can no longer be paid for.
\<close>

theorem will_backup_iff_affordable:
  "will_backup sch stats = (energy_stored (battery sch) > backup_energy_penalty)
   \<and> will_backup sch stats = (stored (battery sch) > 0.75)
   \<and> (is_active sch \<longrightarrow> will_backup sch stats)"
  by (simp add: is_active_def will_backup_def energy_stored_def normal_running_energy_def
      backup_energy_penalty_def recovery_energy_penalty_def)

theorem will_backup_iff_affordable_witness:
  "is_active \<lparr>battery = \<lparr>stored = 2\<rparr>, last_cycle_count = 0\<rparr>
   \<and> will_backup \<lparr>battery = \<lparr>stored = 2\<rparr>, last_cycle_count = 0\<rparr>
        \<lparr>cycle_count = 7, models = []\<rparr>"
proof -
  have active: "is_active \<lparr>battery = \<lparr>stored = 2\<rparr>, last_cycle_count = 0\<rparr>"
    by (simp add: is_active_def energy_stored_def normal_running_energy_def
        backup_energy_penalty_def recovery_energy_penalty_def)
  with will_backup_iff_affordable
         [of "\<lparr>battery = \<lparr>stored = 2\<rparr>, last_cycle_count = 0\<rparr>"
             "\<lparr>cycle_count = 7, models = []\<rparr>"]
  show ?thesis by blast
qed

subsection \<open>Backup intervals\<close>

lemma backup_Some:
  assumes "backup sch stats = Some (sch1, stats1, c)"
  shows "models stats \<noteq> []"
    and "models stats1 = butlast (models stats) @
           [(last (models stats))\<lparr>backup_times := backup_times (last (models stats)) @
              [cycle_count stats - last_cycle_count sch]\<rparr>]"
    and "last_cycle_count sch1 = cycle_count stats"
    and "cycle_count stats1 = cycle_count stats"
    and "c = backup_time_penalty"
  using assms by (auto simp: backup_def update_back_def Let_def split: if_splits)

lemma all_intervals_backup:
  assumes "backup sch stats = Some (sch1, stats1, c)"
  shows "sum_list (all_intervals stats1) =
         sum_list (all_intervals stats) + (cycle_count stats - last_cycle_count sch)"
proof -
  from backup_Some(1,2) [OF assms] obtain ms m where ms: "models stats = ms @ [m]"
    and m1: "models stats1 =
      ms @ [m\<lparr>backup_times := backup_times m @ [cycle_count stats - last_cycle_count sch]\<rparr>]"
    by (metis append_butlast_last_id butlast_snoc last_snoc)
  show ?thesis by (simp add: all_intervals_def ms m1)
qed

lemma step_sum:
  assumes "step e (sch, stats) = Some (sch1, stats1)"
  shows "sum_list (all_intervals stats1) - last_cycle_count sch1 =
         sum_list (all_intervals stats) - last_cycle_count sch"
proof (cases e)
  case (Advance k)
  with assms show ?thesis by (auto simp: all_intervals_def)
next
  case Backup
  with assms obtain s2 st2 c where b: "backup sch stats = Some (s2, st2, c)"
     and e1: "sch1 = s2" "stats1 = st2\<lparr>cycle_count := cycle_count st2 + c\<rparr>"
    by (auto split: option.splits)
  from all_intervals_backup [OF b] backup_Some(3) [OF b] e1 show ?thesis
    by (simp add: all_intervals_def)
next
  case Restore
  with assms show ?thesis
    by (auto simp: all_intervals_def restore_def Let_def empty_active_stats_def)
qed

lemma run_sum:
  "run es cfg = Some cfg1 \<Longrightarrow>
   sum_list (all_intervals (snd cfg1)) - last_cycle_count (fst cfg1) =
   sum_list (all_intervals (snd cfg)) - last_cycle_count (fst cfg)"
proof (induction es arbitrary: cfg)
  case Nil
  then show ?case by simp
next
  case (Cons e es)
  then obtain cfg2 where s: "step e cfg = Some cfg2" and r: "run es cfg2 = Some cfg1"
    by (auto split: option.splits)
  from step_sum [of e "fst cfg" "snd cfg" "fst cfg2" "snd cfg2"] s Cons.IH [OF r]
  show ?case by simp
qed

text \<open>
  C4 as stated: the interval of the first backup after a restore is measured from the
  start of the new active period. In the run below the first backup happens at cycle 1000;
  the restore is called at cycle 1035 and returns at cycle 1070; the second backup happens
  at cycle 1100. The code records 100 for it, the distance to the backup of the previous
  period; the spec's wording gives 65 (and 30 when the period is taken to start once the
  restore has returned).
\<close>

theorem backup_interval_since_period_start_counterexample:
  "recorded_intervals
     (run [Advance 1000, Backup, Restore, Advance 30, Backup]
        (\<lparr>battery = \<lparr>stored = 100\<rparr>, last_cycle_count = 0\<rparr>,
         \<lparr>cycle_count = 0, models = [empty_active_stats]\<rparr>))
     = Some [[1000], [100]]
   \<and> spec_intervals [Advance 1000, Backup, Restore, Advance 30, Backup] 0 0 [[]]
     = Some [[1000], [65]]"
  by (simp add: recorded_intervals_def backup_def restore_def update_back_def
      empty_active_stats_def backup_time_penalty_def restore_time_penalty_def)

lemma restore_effect:
  "last_cycle_count (fst (restore sch stats)) = last_cycle_count sch"
  "models (fst (snd (restore sch stats))) = models stats @ [empty_active_stats]"
  "cycle_count (fst (snd (restore sch stats))) = cycle_count stats"
  "snd (snd (restore sch stats)) = restore_time_penalty"
  by (simp_all add: restore_def Let_def)

lemma backup_None: "backup sch stats = None \<longleftrightarrow> models stats = []"
  by (simp add: backup_def update_back_def Let_def)

lemma run_reference:
  "run es (sch, stats) = Some (sch1, stats1) \<Longrightarrow>
   last_cycle_count sch1 = previous_backup_cycle es (cycle_count stats) (last_cycle_count sch)"
proof (induction es arbitrary: sch stats)
  case Nil
  then show ?case by simp
next
  case (Cons e es)
  show ?case
  proof (cases e)
    case (Advance k)
    with Cons.prems
    have "run es (sch, stats\<lparr>cycle_count := cycle_count stats + k\<rparr>) = Some (sch1, stats1)"
      by simp
    from Cons.IH [OF this] Advance show ?thesis
      by simp
  next
    case Backup
    with Cons.prems obtain s2 st2 c where b: "backup sch stats = Some (s2, st2, c)"
      and r: "run es (s2, st2\<lparr>cycle_count := cycle_count st2 + c\<rparr>) = Some (sch1, stats1)"
      by (auto split: option.splits)
    from Cons.IH [OF r] backup_Some(3,4,5) [OF b] Backup show ?thesis
      by simp
  next
    case Restore
    obtain s2 st2 c where rs: "restore sch stats = (s2, st2, c)"
      by (cases "restore sch stats")
    with Cons.prems Restore
    have r: "run es (s2, st2\<lparr>cycle_count := cycle_count st2 + c\<rparr>) = Some (sch1, stats1)"
      by simp
    from restore_effect [of sch stats] rs
    have "last_cycle_count s2 = last_cycle_count sch" "cycle_count st2 = cycle_count stats"
      "c = restore_time_penalty"
      by simp_all
    with Cons.IH [OF r] Restore show ?thesis
      by simp
  qed
qed

lemma run_intervals:
  "recorded_intervals (run es (sch, stats)) =
   intervals_since_previous_backup es (cycle_count stats) (last_cycle_count sch)
     (map backup_times (models stats))"
proof (induction es arbitrary: sch stats)
  case Nil
  show ?case
    by (simp add: recorded_intervals_def)
next
  case (Cons e es)
  show ?case
  proof (cases e)
    case (Advance k)
    with Cons.IH [of sch "stats\<lparr>cycle_count := cycle_count stats + k\<rparr>"] show ?thesis
      by simp
  next
    case Backup
    show ?thesis
    proof (cases "backup sch stats")
      case None
      then have "models stats = []"
        by (simp add: backup_None)
      with None Backup show ?thesis
        by (simp add: recorded_intervals_def)
    next
      case (Some res)
      obtain s2 st2 c where res: "res = (s2, st2, c)"
        by (cases res)
      note b = Some [unfolded res]
      note f = backup_Some [OF b]
      from f(1,2) have "map backup_times (models st2) =
          butlast (map backup_times (models stats)) @
            [last (map backup_times (models stats)) @ [cycle_count stats - last_cycle_count sch]]"
        by (simp add: map_butlast last_map)
      with Cons.IH [of s2 "st2\<lparr>cycle_count := cycle_count st2 + c\<rparr>"] f b Backup
      show ?thesis
        by simp
    qed
  next
    case Restore
    obtain s2 st2 c where rs: "restore sch stats = (s2, st2, c)"
      by (cases "restore sch stats")
    from restore_effect [of sch stats] rs
    have "last_cycle_count s2 = last_cycle_count sch" "cycle_count st2 = cycle_count stats"
      "c = restore_time_penalty" "models st2 = models stats @ [empty_active_stats]"
      by simp_all
    with Cons.IH [of s2 "st2\<lparr>cycle_count := cycle_count st2 + c\<rparr>"] rs Restore
    show ?thesis
      by (simp add: empty_active_stats_def)
  qed
qed

text \<open>
  C4 as amended: every backup appends to the last active-period record the cycle count at
  that backup minus the reference \<open>last_cycle_count\<close>, and that reference is the cycle
  count at the previous backup of the run, whichever period that backup belonged to (the
  initial reference, 0, when there was none); the backup then makes its own cycle count
  the reference. A restore opens a new, empty record and leaves the reference and the
  cycle counter as they are, so the first backup after a restore is measured from the
  previous backup and not from the start of the new period. Hence the records of any run
  are those of \<open>intervals_since_previous_backup\<close>, and the intervals of all records taken
  together grow by the distance from the initial reference to the cycle count at the last
  backup (in 64-bit arithmetic).
\<close>

theorem backup_interval_since_previous_backup:
  assumes "run es (sch0, stats0) = Some (sch, stats)"
    and "backup sch stats = Some (sch1, stats1, c)"
  shows "last_cycle_count sch =
           previous_backup_cycle es (cycle_count stats0) (last_cycle_count sch0)
         \<and> backup_times (last (models stats1)) =
           backup_times (last (models stats)) @
             [cycle_count stats -
              previous_backup_cycle es (cycle_count stats0) (last_cycle_count sch0)]
         \<and> butlast (models stats1) = butlast (models stats)
         \<and> last_cycle_count sch1 = cycle_count stats
         \<and> last_cycle_count (fst (restore schR statsR)) = last_cycle_count schR
         \<and> models (fst (snd (restore schR statsR))) = models statsR @ [empty_active_stats]
         \<and> cycle_count (fst (snd (restore schR statsR))) = cycle_count statsR
         \<and> recorded_intervals (run (es @ [Backup]) (sch0, stats0)) =
             intervals_since_previous_backup (es @ [Backup]) (cycle_count stats0)
               (last_cycle_count sch0) (map backup_times (models stats0))
         \<and> sum_list (all_intervals stats1) - sum_list (all_intervals stats0) =
             cycle_count stats - last_cycle_count sch0"
proof -
  note b = backup_Some [OF assms(2)]
  note ref = run_reference [OF assms(1)]
  have "sum_list (all_intervals stats) - last_cycle_count sch =
        sum_list (all_intervals stats0) - last_cycle_count sch0"
    using run_sum [OF assms(1)] by simp
  then have before: "sum_list (all_intervals stats) =
        sum_list (all_intervals stats0) - last_cycle_count sch0 + last_cycle_count sch"
    by (simp add: diff_eq_eq)
  have "sum_list (all_intervals stats1) =
        sum_list (all_intervals stats) + (cycle_count stats - last_cycle_count sch)"
    by (rule all_intervals_backup [OF assms(2)])
  with before have total: "sum_list (all_intervals stats1) - sum_list (all_intervals stats0) =
        cycle_count stats - last_cycle_count sch0"
    by simp
  have appended: "backup_times (last (models stats1)) =
      backup_times (last (models stats)) @
        [cycle_count stats -
         previous_backup_cycle es (cycle_count stats0) (last_cycle_count sch0)]"
    using b ref by simp
  have same: "butlast (models stats1) = butlast (models stats)"
    using b by simp
  from ref appended same b(3) restore_effect(1,2,3) [of schR statsR]
    run_intervals [of "es @ [Backup]" sch0 stats0] total
  show ?thesis
    by simp
qed

theorem backup_interval_since_previous_backup_witness:
  "run [Advance 1000, Backup, Restore, Advance 30]
     (\<lparr>battery = \<lparr>stored = 100\<rparr>, last_cycle_count = 0\<rparr>,
      \<lparr>cycle_count = 0, models = [empty_active_stats]\<rparr>)
     = Some (\<lparr>battery = \<lparr>stored = 99\<rparr>, last_cycle_count = 1000\<rparr>,
             \<lparr>cycle_count = 1100,
              models = [\<lparr>instruction_energy = 0, backup_times = [1000]\<rparr>,
                        \<lparr>instruction_energy = 0, backup_times = []\<rparr>]\<rparr>)
   \<and> backup \<lparr>battery = \<lparr>stored = 99\<rparr>, last_cycle_count = 1000\<rparr>
        \<lparr>cycle_count = 1100,
         models = [\<lparr>instruction_energy = 0, backup_times = [1000]\<rparr>,
                   \<lparr>instruction_energy = 0, backup_times = []\<rparr>]\<rparr>
     = Some (\<lparr>battery = \<lparr>stored = 98.25\<rparr>, last_cycle_count = 1100\<rparr>,
             \<lparr>cycle_count = 1100,
              models = [\<lparr>instruction_energy = 0, backup_times = [1000]\<rparr>,
                        \<lparr>instruction_energy = 0, backup_times = [100]\<rparr>]\<rparr>, 35)
   \<and> previous_backup_cycle [Advance 1000, Backup, Restore, Advance 30] 0 0 = 1000
   \<and> backup_times (last [\<lparr>instruction_energy = 0, backup_times = [1000]\<rparr>,
                          \<lparr>instruction_energy = 0, backup_times = [100::64 word]\<rparr>])
     = [1100 - 1000]
   \<and> last_cycle_count
        (fst (restore \<lparr>battery = \<lparr>stored = 98.25\<rparr>, last_cycle_count = 1100\<rparr>
                \<lparr>cycle_count = 1135,
                 models = [\<lparr>instruction_energy = 0, backup_times = [1000]\<rparr>,
                           \<lparr>instruction_energy = 0, backup_times = [100]\<rparr>]\<rparr>))
     = 1100
   \<and> map backup_times
        (models (fst (snd (restore \<lparr>battery = \<lparr>stored = 98.25\<rparr>, last_cycle_count = 1100\<rparr>
                \<lparr>cycle_count = 1135,
                 models = [\<lparr>instruction_energy = 0, backup_times = [1000]\<rparr>,
                           \<lparr>instruction_energy = 0, backup_times = [100]\<rparr>]\<rparr>))))
     = [[1000], [100], []]"
proof -
  have r: "run [Advance 1000, Backup, Restore, Advance 30]
     (\<lparr>battery = \<lparr>stored = 100\<rparr>, last_cycle_count = 0\<rparr>,
      \<lparr>cycle_count = 0, models = [empty_active_stats]\<rparr>)
     = Some (\<lparr>battery = \<lparr>stored = 99\<rparr>, last_cycle_count = 1000\<rparr>,
             \<lparr>cycle_count = 1100,
              models = [\<lparr>instruction_energy = 0, backup_times = [1000]\<rparr>,
                        \<lparr>instruction_energy = 0, backup_times = []\<rparr>]\<rparr>)"
    by (simp add: backup_def restore_def update_back_def consume_energy_def
        empty_active_stats_def backup_time_penalty_def restore_time_penalty_def
        backup_energy_penalty_def recovery_energy_penalty_def)
  have b: "backup \<lparr>battery = \<lparr>stored = 99\<rparr>, last_cycle_count = 1000\<rparr>
        \<lparr>cycle_count = 1100,
         models = [\<lparr>instruction_energy = 0, backup_times = [1000]\<rparr>,
                   \<lparr>instruction_energy = 0, backup_times = []\<rparr>]\<rparr>
     = Some (\<lparr>battery = \<lparr>stored = 98.25\<rparr>, last_cycle_count = 1100\<rparr>,
             \<lparr>cycle_count = 1100,
              models = [\<lparr>instruction_energy = 0, backup_times = [1000]\<rparr>,
                        \<lparr>instruction_energy = 0, backup_times = [100]\<rparr>]\<rparr>, 35)"
    by (simp add: backup_def update_back_def consume_energy_def
        backup_time_penalty_def backup_energy_penalty_def)
  note t = backup_interval_since_previous_backup
             [OF r b, of "\<lparr>battery = \<lparr>stored = 98.25\<rparr>, last_cycle_count = 1100\<rparr>"
                "\<lparr>cycle_count = 1135,
                 models = [\<lparr>instruction_energy = 0, backup_times = [1000]\<rparr>,
                           \<lparr>instruction_energy = 0, backup_times = [100]\<rparr>]\<rparr>"]
  from t have ref: "(1000::64 word) =
      previous_backup_cycle [Advance 1000, Backup, Restore, Advance 30] 0 0"
    by simp
  from t have keep: "last_cycle_count
        (fst (restore \<lparr>battery = \<lparr>stored = 98.25\<rparr>, last_cycle_count = 1100\<rparr>
                \<lparr>cycle_count = 1135,
                 models = [\<lparr>instruction_energy = 0, backup_times = [1000]\<rparr>,
                           \<lparr>instruction_energy = 0, backup_times = [100]\<rparr>]\<rparr>))
     = 1100"
    by simp
  from t have opened: "models (fst (snd (restore \<lparr>battery = \<lparr>stored = 98.25\<rparr>, last_cycle_count = 1100\<rparr>
                \<lparr>cycle_count = 1135,
                 models = [\<lparr>instruction_energy = 0, backup_times = [1000]\<rparr>,
                           \<lparr>instruction_energy = 0, backup_times = [100]\<rparr>]\<rparr>)))
     = [\<lparr>instruction_energy = 0, backup_times = [1000]\<rparr>,
        \<lparr>instruction_energy = 0, backup_times = [100]\<rparr>] @ [empty_active_stats]"
    by simp
  from r b ref [symmetric] keep show ?thesis
    unfolding opened by (simp add: empty_active_stats_def)
qed

section \<open>Byte lanes\<close>

lemma byte_mask: "(0xFF::32 word) = mask 8"
  by (simp add: mask_eq_exp_minus_1)

lemma lane0_mask: "(0xFFFFFF00::32 word) = NOT (push_bit 0 (mask 8))"
  by (simp add: mask_eq_exp_minus_1)

lemma lane1_mask: "(0xFFFF00FF::32 word) = NOT (push_bit 8 (mask 8))"
  by (simp add: mask_eq_exp_minus_1)

lemma lane2_mask: "(0xFF00FFFF::32 word) = NOT (push_bit 16 (mask 8))"
  by (simp add: mask_eq_exp_minus_1)

lemma lane3_mask: "(0x00FFFFFF::32 word) = NOT (push_bit 24 (mask 8))"
  by (simp add: mask_eq_exp_minus_1)

lemma and3_cases: "a AND 3 = 0 \<or> a AND 3 = 1 \<or> a AND 3 = 2 \<or> a AND 3 = (3::32 word)"
proof -
  have "a AND 3 \<le> 3"
    by (rule word_and_le1)
  then have "unat (a AND 3) \<le> 3"
    by (simp add: word_le_nat_alt)
  then have "unat (a AND 3) = 0 \<or> unat (a AND 3) = 1 \<or> unat (a AND 3) = 2 \<or> unat (a AND 3) = 3"
    by arith
  then show ?thesis
    by (simp add: word_unat_eq_iff)
qed

lemma lane_splice_same: "j < 4 \<Longrightarrow> lane j (splice j orig v) = v AND 0xFF"
  unfolding lane_def splice_def byte_mask
  by (rule bit_word_eqI) (auto simp: bit_simps)

lemma lane_splice_other: "k \<noteq> j \<Longrightarrow> lane k (splice j orig v) = lane k orig"
  unfolding lane_def splice_def byte_mask
  by (rule bit_word_eqI) (auto simp: bit_simps dest: bit_imp_le_length)

lemma splice_0: "(orig AND 0xFFFFFF00) OR push_bit 0 (v AND 0xFF) = splice 0 orig v"
  unfolding splice_def byte_mask lane0_mask by simp

lemma splice_1: "(orig AND 0xFFFF00FF) OR push_bit 8 (v AND 0xFF) = splice 1 orig v"
  unfolding splice_def byte_mask lane1_mask by simp

lemma splice_2: "(orig AND 0xFF00FFFF) OR push_bit 16 (v AND 0xFF) = splice 2 orig v"
  unfolding splice_def byte_mask lane2_mask by simp

lemma splice_3: "(orig AND 0x00FFFFFF) OR push_bit 24 (v AND 0xFF) = splice 3 orig v"
  unfolding splice_def byte_mask lane3_mask by simp

lemma strb_i_RAM:
  assumes "region_of s (a AND NOT 3) = RAM"
    and a: "a = cpu_get_gpr (Rn d) s + zeroExtend32 (imm d)"
  shows "strb_i d s =
     Inr (s\<lparr>cells := (cells s)(a AND NOT 3 :=
                splice (unat (a AND 3)) (cells s (a AND NOT 3)) (cpu_get_gpr (Rd d) s)),
             accesses := accesses s @ [LoadEvent (a AND NOT 3) 1,
                StoreEvent (a AND NOT 3)
                  (splice (unat (a AND 3)) (cells s (a AND NOT 3)) (cpu_get_gpr (Rd d) s))]\<rparr>,
          TIMING_MEM)"
  using assms(1) and3_cases [of a] unfolding a strb_i_def Let_def load_def store_def
       splice_0 splice_1 splice_2 splice_3
  by auto

lemma ldrb_i_lane:
  assumes "region_of s (a AND NOT 3) \<noteq> Unmapped"
    and a: "a = cpu_get_gpr (Rn d) s + zeroExtend32 (imm d)"
  shows "ldrb_i d s = Inr (cpu_set_gpr (Rd d) (lane (unat (a AND 3)) (cells s (a AND NOT 3)))
            (s\<lparr>accesses := accesses s @ [LoadEvent (a AND NOT 3) 0]\<rparr>), TIMING_MEM)"
  using assms(1) and3_cases [of a]
  unfolding a ldrb_i_def Let_def load_def lane_def zeroExtend32_def
  by auto

text \<open>
  C6. Let the word that contains address \<open>a\<close> lie in RAM. Then \<open>strb\<close> of register \<open>Rd\<close>
  to \<open>a\<close> returns, a following \<open>ldrb\<close> from \<open>a\<close> returns with the low byte of the stored
  register in its destination register, and the three other byte lanes of the word at
  \<open>a AND NOT 3\<close> are the same after the \<open>strb\<close> as before.
\<close>

theorem strb_ldrb_roundtrip:
  assumes ram: "region_of s (a AND NOT 3) = RAM"
    and a1: "cpu_get_gpr (Rn d1) s + zeroExtend32 (imm d1) = a"
    and a2: "cpu_get_gpr (Rn d2) s + zeroExtend32 (imm d2) = a"
  shows "\<exists>s1 s2. strb_i d1 s = Inr (s1, TIMING_MEM)
           \<and> ldrb_i d2 s1 = Inr (s2, TIMING_MEM)
           \<and> cpu_get_gpr (Rd d2) s2 = cpu_get_gpr (Rd d1) s AND 0xFF
           \<and> (\<forall>k<4. k \<noteq> unat (a AND 3) \<longrightarrow>
                 lane k (cells s1 (a AND NOT 3)) = lane k (cells s (a AND NOT 3))
                 \<and> lane k (cells s2 (a AND NOT 3)) = lane k (cells s (a AND NOT 3)))"
proof -
  let ?aw = "a AND NOT 3"
  let ?j = "unat (a AND 3)"
  let ?new = "splice ?j (cells s ?aw) (cpu_get_gpr (Rd d1) s)"
  let ?s1 = "s\<lparr>cells := (cells s)(?aw := ?new),
               accesses := accesses s @ [LoadEvent ?aw 1, StoreEvent ?aw ?new]\<rparr>"
  let ?s2 = "cpu_set_gpr (Rd d2) (lane ?j (cells ?s1 ?aw))
               (?s1\<lparr>accesses := accesses ?s1 @ [LoadEvent ?aw 0]\<rparr>)"
  have j: "?j < 4"
    using and3_cases [of a] by auto
  have st: "strb_i d1 s = Inr (?s1, TIMING_MEM)"
    by (rule strb_i_RAM [OF ram a1 [symmetric]])
  have reg: "region_of ?s1 ?aw \<noteq> Unmapped"
    using ram by simp
  have a2': "a = cpu_get_gpr (Rn d2) ?s1 + zeroExtend32 (imm d2)"
    using a2 by (simp add: cpu_get_gpr_def)
  have ld: "ldrb_i d2 ?s1 = Inr (?s2, TIMING_MEM)"
    by (rule ldrb_i_lane [OF reg a2'])
  have "lane ?j (cells ?s1 ?aw) = cpu_get_gpr (Rd d1) s AND 0xFF"
    using lane_splice_same [OF j] by simp
  then have val: "cpu_get_gpr (Rd d2) ?s2 = cpu_get_gpr (Rd d1) s AND 0xFF"
    by (simp add: cpu_get_gpr_def cpu_set_gpr_def)
  have lanes: "\<forall>k<4. k \<noteq> ?j \<longrightarrow>
      lane k (cells ?s1 ?aw) = lane k (cells s ?aw) \<and> lane k (cells ?s2 ?aw) = lane k (cells s ?aw)"
    by (simp add: lane_splice_other cpu_set_gpr_def)
  from st ld val lanes show ?thesis
    by blast
qed

theorem strb_ldrb_roundtrip_witness:
  "\<exists>s1 s2.
     strb_i \<lparr>Rd = 2, Rm = 0, Rn = 1, imm = 0, register_list = 0\<rparr> example_machine
       = Inr (s1, TIMING_MEM)
     \<and> ldrb_i \<lparr>Rd = 3, Rm = 0, Rn = 1, imm = 0, register_list = 0\<rparr> s1 = Inr (s2, TIMING_MEM)
     \<and> cpu_get_gpr 3 s2 = 0xCD
     \<and> lane 0 (cells s1 0x20000000) = 0x44
     \<and> lane 2 (cells s1 0x20000000) = 0x22
     \<and> lane 3 (cells s1 0x20000000) = 0x11"
proof -
  have ram: "region_of example_machine (0x20000001 AND NOT 3) = RAM"
    by (simp add: example_machine_def example_region_def)
  have a1: "cpu_get_gpr (Rn \<lparr>Rd = 2, Rm = 0, Rn = 1, imm = 0, register_list = 0\<rparr>) example_machine
      + zeroExtend32 (imm \<lparr>Rd = 2, Rm = 0, Rn = 1, imm = 0, register_list = 0\<rparr>) = 0x20000001"
    by (simp add: example_machine_def cpu_get_gpr_def zeroExtend32_def)
  have a2: "cpu_get_gpr (Rn \<lparr>Rd = 3, Rm = 0, Rn = 1, imm = 0, register_list = 0\<rparr>) example_machine
      + zeroExtend32 (imm \<lparr>Rd = 3, Rm = 0, Rn = 1, imm = 0, register_list = 0\<rparr>) = 0x20000001"
    by (simp add: example_machine_def cpu_get_gpr_def zeroExtend32_def)
  have v: "cpu_get_gpr (Rd \<lparr>Rd = 2, Rm = 0, Rn = 1, imm = 0, register_list = 0\<rparr>) example_machine
      AND 0xFF = 0xCD"
    by (simp add: example_machine_def cpu_get_gpr_def)
  have j: "unat (0x20000001 AND 3 :: 32 word) = 1" and aw: "(0x20000001 AND NOT 3 :: 32 word) = 0x20000000"
    by simp_all
  have l: "lane 0 (cells example_machine 0x20000000) = 0x44"
      "lane 2 (cells example_machine 0x20000000) = 0x22"
      "lane 3 (cells example_machine 0x20000000) = 0x11"
    by (simp_all add: example_machine_def lane_def)
  from strb_ldrb_roundtrip [OF ram a1 a2]
  obtain s1 s2 where
    "strb_i \<lparr>Rd = 2, Rm = 0, Rn = 1, imm = 0, register_list = 0\<rparr> example_machine
       = Inr (s1, TIMING_MEM)"
    "ldrb_i \<lparr>Rd = 3, Rm = 0, Rn = 1, imm = 0, register_list = 0\<rparr> s1 = Inr (s2, TIMING_MEM)"
    "cpu_get_gpr 3 s2 = 0xCD"
    "\<forall>k<4. k \<noteq> 1 \<longrightarrow> lane k (cells s1 0x20000000) = lane k (cells example_machine 0x20000000)"
    unfolding v j aw by auto
  with l show ?thesis
    by (intro exI [of _ s1] exI [of _ s2]) simp
qed

section \<open>Addresses handed to the memory interface\<close>

lemma floor_aligned: "aligned (a AND NOT 3)"
  by (simp add: aligned_def and.assoc)

lemma and3_take_bit: "(a::32 word) AND 3 = take_bit 2 a"
  by (simp add: take_bit_eq_mask mask_eq_exp_minus_1)

lemma take_bit_2_shifted: "take_bit 2 (b + push_bit 2 i) = take_bit 2 (b::32 word)"
  by transfer (simp add: take_bit_eq_mod push_bit_eq_mult mod_simps)

lemma shifted_imm_aligned_iff: "aligned (b + zeroExtend32 (push_bit 2 i)) = aligned b"
  by (simp add: aligned_def and3_take_bit zeroExtend32_def take_bit_2_shifted)

lemma literal_aligned: "aligned ((pc AND 0xFFFFFFFC) + zeroExtend32 (push_bit 2 i))"
proof -
  have m: "(0xFFFFFFFC::32 word) = NOT 3"
    by simp
  show ?thesis
    unfolding m shifted_imm_aligned_iff by (rule floor_aligned)
qed

lemma passed_ldr_i:
  "passed s (ldr_i d s) = [cpu_get_gpr (Rn d) s + zeroExtend32 (push_bit 2 (imm d))]"
  by (simp add: ldr_i_def Let_def load_def cpu_set_gpr_def)

lemma passed_ldr_sp:
  "passed s (ldr_sp d s) = [cpu_get_sp s + zeroExtend32 (push_bit 2 (imm d))]"
  by (simp add: ldr_sp_def Let_def load_def cpu_set_gpr_def)

lemma passed_ldr_lit:
  "passed s (ldr_lit d s) = [(cpu_get_pc s AND 0xFFFFFFFC) + zeroExtend32 (push_bit 2 (imm d))]"
  by (simp add: ldr_lit_def Let_def load_def cpu_set_gpr_def)

lemma passed_ldr_r:
  "passed s (ldr_r d s) = [cpu_get_gpr (Rn d) s + cpu_get_gpr (Rm d) s]"
  by (simp add: ldr_r_def Let_def load_def cpu_set_gpr_def)

lemma passed_str_i:
  "passed s (str_i d s) = [cpu_get_gpr (Rn d) s + zeroExtend32 (push_bit 2 (imm d))]"
  by (simp add: str_i_def Let_def store_def)

lemma passed_str_sp:
  "passed s (str_sp d s) = [cpu_get_sp s + zeroExtend32 (push_bit 2 (imm d))]"
  by (simp add: str_sp_def Let_def store_def)

lemma passed_str_r:
  "passed s (str_r d s) = [cpu_get_gpr (Rn d) s + cpu_get_gpr (Rm d) s]"
  by (simp add: str_r_def Let_def store_def)

lemma passed_ldrb_i:
  "passed s (ldrb_i d s) = [(cpu_get_gpr (Rn d) s + zeroExtend32 (imm d)) AND NOT 3]"
  by (simp add: ldrb_i_def Let_def load_def cpu_set_gpr_def)

lemma passed_ldrb_r:
  "passed s (ldrb_r d s) = [(cpu_get_gpr (Rn d) s + cpu_get_gpr (Rm d) s) AND NOT 3]"
  by (simp add: ldrb_r_def Let_def load_def cpu_set_gpr_def)

lemma passed_ldrh_i:
  "passed s (ldrh_i d s) = [(cpu_get_gpr (Rn d) s + zeroExtend32 (push_bit 1 (imm d))) AND NOT 3]"
  by (simp add: ldrh_i_def Let_def load_def cpu_set_gpr_def)

lemma passed_ldrh_r:
  "passed s (ldrh_r d s) = [(cpu_get_gpr (Rn d) s + cpu_get_gpr (Rm d) s) AND NOT 3]"
  by (simp add: ldrh_r_def Let_def load_def cpu_set_gpr_def)

lemma passed_ldrsb_r:
  "passed s (ldrsb_r d s) = [(cpu_get_gpr (Rn d) s + cpu_get_gpr (Rm d) s) AND NOT 3]"
  by (simp add: ldrsb_r_def Let_def load_def cpu_set_gpr_def)

lemma passed_ldrsh_r:
  "passed s (ldrsh_r d s) = [(cpu_get_gpr (Rn d) s + cpu_get_gpr (Rm d) s) AND NOT 3]"
  by (simp add: ldrsh_r_def Let_def load_def cpu_set_gpr_def)

lemma passed_strb_i:
  "set (passed s (strb_i d s)) = {(cpu_get_gpr (Rn d) s + zeroExtend32 (imm d)) AND NOT 3}"
  by (simp add: strb_i_def Let_def load_def store_def)

lemma passed_strb_r:
  "set (passed s (strb_r d s)) = {(cpu_get_gpr (Rn d) s + cpu_get_gpr (Rm d) s) AND NOT 3}"
  by (simp add: strb_r_def Let_def load_def store_def)

lemma passed_strh_i:
  "set (passed s (strh_i d s)) = {(cpu_get_gpr (Rn d) s + zeroExtend32 (push_bit 1 (imm d))) AND NOT 3}"
  by (simp add: strh_i_def Let_def load_def store_def)

lemma passed_strh_r:
  "set (passed s (strh_r d s)) = {(cpu_get_gpr (Rn d) s + cpu_get_gpr (Rm d) s) AND NOT 3}"
  by (simp add: strh_r_def Let_def load_def store_def)

lemma sub_word_aligned:
  "\<forall>a \<in> set (passed s (ldrb_i d s)). aligned a"
  "\<forall>a \<in> set (passed s (ldrb_r d s)). aligned a"
  "\<forall>a \<in> set (passed s (ldrh_i d s)). aligned a"
  "\<forall>a \<in> set (passed s (ldrh_r d s)). aligned a"
  "\<forall>a \<in> set (passed s (ldrsb_r d s)). aligned a"
  "\<forall>a \<in> set (passed s (ldrsh_r d s)). aligned a"
  "\<forall>a \<in> set (passed s (strb_i d s)). aligned a"
  "\<forall>a \<in> set (passed s (strb_r d s)). aligned a"
  "\<forall>a \<in> set (passed s (strh_i d s)). aligned a"
  "\<forall>a \<in> set (passed s (strh_r d s)). aligned a"
  "\<forall>a \<in> set (passed s (ldr_lit d s)). aligned a"
  by (simp_all only: passed_ldrb_i passed_ldrb_r passed_ldrh_i passed_ldrh_r passed_ldrsb_r
      passed_ldrsh_r passed_strb_i passed_strb_r passed_strh_i passed_strh_r passed_ldr_lit
      list.set ball_simps floor_aligned literal_aligned simp_thms)

text \<open>
  C8 as stated: the word handlers only ever pass word-aligned addresses. \<open>ldr_r\<close> with
  r1 = \<open>0x20000001\<close> as base and r0 = 0 as offset hands the address \<open>0x20000001\<close> to
  \<open>load\<close>.
\<close>

theorem word_handlers_aligned_counterexample:
  "passed example_machine
     (ldr_r \<lparr>Rd = 3, Rm = 0, Rn = 1, imm = 0, register_list = 0\<rparr> example_machine)
     = [0x20000001]
   \<and> \<not> aligned 0x20000001"
  by (simp add: ldr_r_def Let_def load_def cpu_set_gpr_def cpu_get_gpr_def example_machine_def
      example_region_def aligned_def)

text \<open>
  C8 as amended: every address that a sub-word handler (\<open>ldrb\<close>, \<open>ldrh\<close>, \<open>ldrsb\<close>,
  \<open>ldrsh\<close>, \<open>strb\<close>, \<open>strh\<close>) hands to the memory interface is 4-byte aligned, since
  the handler floors the effective address; so is the address that \<open>ldr_lit\<close> passes,
  since it masks the PC and adds a multiple of 4. The other word handlers (\<open>ldr_i\<close>,
  \<open>ldr_sp\<close>, \<open>ldr_r\<close>, \<open>str_i\<close>, \<open>str_sp\<close>, \<open>str_r\<close>) pass base plus offset as it is;
  for the immediate forms that address is aligned exactly when the base is.
\<close>

theorem passed_addresses_alignment:
  "(\<forall>h \<in> set [ldrb_i, ldrb_r, ldrh_i, ldrh_r, ldrsb_r, ldrsh_r,
                 strb_i, strb_r, strh_i, strh_r, ldr_lit].
      \<forall>a \<in> set (passed s (h d s)). aligned a)
   \<and> passed s (ldr_i d s) = [cpu_get_gpr (Rn d) s + zeroExtend32 (push_bit 2 (imm d))]
   \<and> passed s (ldr_sp d s) = [cpu_get_sp s + zeroExtend32 (push_bit 2 (imm d))]
   \<and> passed s (ldr_r d s) = [cpu_get_gpr (Rn d) s + cpu_get_gpr (Rm d) s]
   \<and> passed s (str_i d s) = [cpu_get_gpr (Rn d) s + zeroExtend32 (push_bit 2 (imm d))]
   \<and> passed s (str_sp d s) = [cpu_get_sp s + zeroExtend32 (push_bit 2 (imm d))]
   \<and> passed s (str_r d s) = [cpu_get_gpr (Rn d) s + cpu_get_gpr (Rm d) s]
   \<and> aligned (cpu_get_gpr (Rn d) s + zeroExtend32 (push_bit 2 (imm d)))
       = aligned (cpu_get_gpr (Rn d) s)
   \<and> aligned (cpu_get_sp s + zeroExtend32 (push_bit 2 (imm d))) = aligned (cpu_get_sp s)"
  by (simp only: list.set ball_simps
      passed_ldr_i passed_ldr_sp passed_ldr_r passed_str_i passed_str_sp passed_str_r
      shifted_imm_aligned_iff simp_thms)
    (intro conjI sub_word_aligned)

theorem passed_addresses_alignment_witness:
  "passed example_machine
     (ldrb_i \<lparr>Rd = 3, Rm = 0, Rn = 1, imm = 2, register_list = 0\<rparr> example_machine)
     = [0x20000000]
   \<and> aligned 0x20000000
   \<and> passed example_machine
     (ldr_i \<lparr>Rd = 3, Rm = 0, Rn = 1, imm = 2, register_list = 0\<rparr> example_machine)
     = [0x20000009]"
proof -
  let ?d = "\<lparr>Rd = 3, Rm = 0, Rn = 1, imm = 2, register_list = 0\<rparr>"
  note t = passed_addresses_alignment [of example_machine ?d]
  have p: "passed example_machine (ldrb_i ?d example_machine) = [0x20000000]"
    by (simp add: ldrb_i_def Let_def load_def cpu_set_gpr_def cpu_get_gpr_def
        example_machine_def example_region_def zeroExtend32_def)
  have g: "cpu_get_gpr (Rn ?d) example_machine + zeroExtend32 (push_bit 2 (imm ?d))
      = 0x20000009"
    by (simp add: cpu_get_gpr_def example_machine_def zeroExtend32_def)
  from t [THEN conjunct1]
  have "\<forall>a \<in> set (passed example_machine (ldrb_i ?d example_machine)). aligned a"
    by simp
  then have al: "aligned 0x20000000"
    unfolding p by simp
  from t [THEN conjunct2, THEN conjunct1]
  have "passed example_machine (ldr_i ?d example_machine) = [0x20000009]"
    unfolding g .
  with p al show ?thesis
    by simp
qed

section \<open>One round of each loop\<close>

lemma list_bit_test: "(rl AND push_bit i 1 \<noteq> 0) = bit (rl::32 word) i"
  by (simp add: push_bit_of_1 and_exp_eq_0_iff_not_bit)

lemma pop_loop_done:
  assumes "\<not> i < 16"
  shows "pop_loop d i a n s = Inr (a, n, s)"
  by (subst pop_loop.simps) (simp only: assms if_False)

lemma pop_loop_skip:
  assumes "i < 16" and "\<not> bit (register_list d) i"
  shows "pop_loop d i a n s = pop_loop d ((if i = 7 then 14 else i) + 1) a n s"
  by (subst pop_loop.simps) (simp only: assms list_bit_test if_True if_False)

lemma pop_loop_fault:
  assumes "i < 16" and "bit (register_list d) i" and "load a 0 s = Inl e"
  shows "pop_loop d i a n s = Inl e"
  by (subst pop_loop.simps) (simp only: assms list_bit_test if_True sum.case)

lemma pop_loop_take:
  assumes "i < 16" and "bit (register_list d) i" and "load a 0 s = Inr (data, s1)"
  shows "pop_loop d i a n s =
         pop_loop d ((if i = 7 then 14 else i) + 1) (a + 4) (n + 1)
           (if i = 15 then (cpu_set_gpr i data s1)\<lparr>BRANCH_WAS_TAKEN := True\<rparr>
            else cpu_set_gpr i data s1)"
  by (subst pop_loop.simps) (simp only: assms list_bit_test if_True sum.case prod.case Let_def)

lemma push_loop_done:
  assumes "\<not> 0 \<le> i"
  shows "push_loop d i a n s = Inr (a, n, s)"
  by (subst push_loop.simps) (simp only: assms if_False)

lemma push_loop_skip:
  assumes "0 \<le> i" and "\<not> bit (register_list d) (nat i)"
  shows "push_loop d i a n s = push_loop d ((if i = 14 then 8 else i) - 1) a n s"
  by (subst push_loop.simps) (simp only: assms list_bit_test if_True if_False)

lemma push_loop_fault:
  assumes "0 \<le> i" and "bit (register_list d) (nat i)"
    and "store (a - 4) (cpu_get_gpr (nat i) s) s = Inl e"
  shows "push_loop d i a n s = Inl e"
  by (subst push_loop.simps) (simp only: assms list_bit_test if_True sum.case Let_def)

lemma push_loop_take:
  assumes "0 \<le> i" and "bit (register_list d) (nat i)"
    and "store (a - 4) (cpu_get_gpr (nat i) s) s = Inr s1"
  shows "push_loop d i a n s = push_loop d ((if i = 14 then 8 else i) - 1) (a - 4) (n + 1) s1"
  by (subst push_loop.simps) (simp only: assms list_bit_test if_True sum.case Let_def)

section \<open>Bits of the register list that the stack operations do not look at\<close>

lemma pop_loop_agree:
  "(\<forall>j. j < 8 \<or> j = 15 \<longrightarrow> bit (register_list d') j = bit (register_list d) j) \<Longrightarrow>
   i < 8 \<or> 15 \<le> i \<Longrightarrow>
   pop_loop d' i a n s = pop_loop d i a n s"
proof (induction d i a n s rule: pop_loop.induct)
  case (1 d i a n s)
  note agree = "1.prems"(1) and idx = "1.prems"(2)
  show ?case
  proof (cases "i < 16")
    case False
    show ?thesis
      unfolding pop_loop_done [OF False] ..
  next
    case lt: True
    with idx have "i < 8 \<or> i = 15"
      by arith
    with agree have test: "bit (register_list d') i = bit (register_list d) i"
      by blast
    from lt idx have nxt: "(if i = 7 then 14 else i) + 1 < 8 \<or> 15 \<le> (if i = 7 then 14 else i) + 1"
      by auto
    show ?thesis
    proof (cases "bit (register_list d) i")
      case False
      then have t: "\<not> register_list d AND push_bit i 1 \<noteq> 0"
        unfolding list_bit_test .
      from False test have False': "\<not> bit (register_list d') i"
        by simp
      show ?thesis
        unfolding pop_loop_skip [OF lt False] pop_loop_skip [OF lt False']
        by (rule "1.IH"(2) [OF lt t agree nxt])
    next
      case True
      then have t: "register_list d AND push_bit i 1 \<noteq> 0"
        unfolding list_bit_test .
      from True test have True': "bit (register_list d') i"
        by simp
      show ?thesis
      proof (cases "load a 0 s")
        case (Inl e)
        show ?thesis
          unfolding pop_loop_fault [OF lt True Inl] pop_loop_fault [OF lt True' Inl] ..
      next
        case (Inr b)
        obtain x y where b: "b = (x, y)"
          by (cases b)
        note ld = Inr [unfolded b]
        show ?thesis
          unfolding pop_loop_take [OF lt True ld] pop_loop_take [OF lt True' ld]
          by (rule "1.IH"(1) [OF lt t Inr b [symmetric] refl refl agree nxt])
      qed
    qed
  qed
qed

lemma push_loop_agree:
  "(\<forall>j. j < 8 \<or> j = 14 \<longrightarrow> bit (register_list d') j = bit (register_list d) j) \<Longrightarrow>
   i < 8 \<or> i = 14 \<Longrightarrow>
   push_loop d' i a n s = push_loop d i a n s"
proof (induction d i a n s rule: push_loop.induct)
  case (1 d i a n s)
  note agree = "1.prems"(1) and idx = "1.prems"(2)
  show ?case
  proof (cases "0 \<le> i")
    case False
    show ?thesis
      unfolding push_loop_done [OF False] ..
  next
    case ge: True
    with idx have "nat i < 8 \<or> nat i = 14"
      by arith
    with agree have test: "bit (register_list d') (nat i) = bit (register_list d) (nat i)"
      by blast
    from ge idx have nxt: "(if i = 14 then 8 else i) - 1 < 8 \<or> (if i = 14 then 8 else i) - 1 = 14"
      by auto
    show ?thesis
    proof (cases "bit (register_list d) (nat i)")
      case False
      then have t: "\<not> register_list d AND push_bit (nat i) 1 \<noteq> 0"
        unfolding list_bit_test .
      from False test have False': "\<not> bit (register_list d') (nat i)"
        by simp
      show ?thesis
        unfolding push_loop_skip [OF ge False] push_loop_skip [OF ge False']
        by (rule "1.IH"(2) [OF ge t agree nxt])
    next
      case True
      then have t: "register_list d AND push_bit (nat i) 1 \<noteq> 0"
        unfolding list_bit_test .
      from True test have True': "bit (register_list d') (nat i)"
        by simp
      show ?thesis
      proof (cases "store (a - 4) (cpu_get_gpr (nat i) s) s")
        case (Inl e)
        show ?thesis
          unfolding push_loop_fault [OF ge True Inl] push_loop_fault [OF ge True' Inl] ..
      next
        case (Inr b)
        show ?thesis
          unfolding push_loop_take [OF ge True Inr] push_loop_take [OF ge True' Inr]
          by (rule "1.IH"(1) [OF ge t refl refl Inr agree nxt])
      qed
    qed
  qed
qed

lemma low_bits_cases: "j < 8 \<Longrightarrow> j = 0 \<or> j = 1 \<or> j = 2 \<or> j = 3 \<or> j = 4 \<or> j = 5 \<or> j = 6 \<or> j = (7::nat)"
  by arith

lemma pop_mask_bits: "j < 8 \<or> j = 15 \<Longrightarrow> bit (rl AND (0x80FF::32 word)) j = bit rl j"
  using low_bits_cases [of j] by (auto simp: bit_and_iff)

lemma push_mask_bits: "j < 8 \<or> j = 14 \<Longrightarrow> bit (rl AND (0x40FF::32 word)) j = bit rl j"
  using low_bits_cases [of j] by (auto simp: bit_and_iff)

text \<open>
  C10. \<open>pop\<close> gives the same outcome (registers, SP, memory, accesses, branch flag and cycle
  cost, or the same fault) as \<open>pop\<close> with every bit of the register list other than bits
  0 to 7 and 15 cleared; \<open>push\<close> gives the same outcome as \<open>push\<close> with every bit other
  than bits 0 to 7 and 14 cleared.
\<close>

theorem stack_ops_ignore_other_bits:
  "pop d s = pop (d\<lparr>register_list := register_list d AND 0x80FF\<rparr>) s
   \<and> push d s = push (d\<lparr>register_list := register_list d AND 0x40FF\<rparr>) s"
proof -
  have "pop_loop (d\<lparr>register_list := register_list d AND 0x80FF\<rparr>) 0 a n s
      = pop_loop d 0 a n s" for a n
    by (rule pop_loop_agree) (simp_all add: pop_mask_bits)
  moreover have "push_loop (d\<lparr>register_list := register_list d AND 0x40FF\<rparr>) 14 a n s
      = push_loop d 14 a n s" for a n
    by (rule push_loop_agree) (simp_all add: push_mask_bits)
  ultimately show ?thesis
    by (simp add: pop_def push_def)
qed

theorem stack_ops_ignore_other_bits_witness:
  "pop \<lparr>Rd = 0, Rm = 0, Rn = 0, imm = 0, register_list = 0x7F01\<rparr> example_machine
     = pop \<lparr>Rd = 0, Rm = 0, Rn = 0, imm = 0, register_list = 0x0001\<rparr> example_machine
   \<and> push \<lparr>Rd = 0, Rm = 0, Rn = 0, imm = 0, register_list = 0x7F01\<rparr> example_machine
     = push \<lparr>Rd = 0, Rm = 0, Rn = 0, imm = 0, register_list = 0x4001\<rparr> example_machine"
  using stack_ops_ignore_other_bits
          [of "\<lparr>Rd = 0, Rm = 0, Rn = 0, imm = 0, register_list = 0x7F01\<rparr>" example_machine]
  by simp

section \<open>Cycle cost of pop\<close>

lemma upt_0_8: "[0..<8] = [0, 1, 2, 3, 4, 5, 6, 7::nat]"
  by code_simp

lemma pop_loop_count:
  "pop_loop d i a n s = Inr (a', n', s') \<Longrightarrow> unat n + (16 - i) < 2 ^ 32 \<Longrightarrow>
   unat n' \<le> unat n + (16 - i)"
proof (induction d i a n s rule: pop_loop.induct)
  case (1 d i a n s)
  note res = "1.prems"(1) and bound = "1.prems"(2)
  show ?case
  proof (cases "i < 16")
    case False
    with res show ?thesis
      by (simp add: pop_loop_done)
  next
    case lt: True
    let ?i' = "(if i = 7 then 14 else i) + 1"
    from lt have i': "16 - ?i' \<le> 16 - i - 1"
      by auto
    show ?thesis
    proof (cases "bit (register_list d) i")
      case False
      then have t: "\<not> register_list d AND push_bit i 1 \<noteq> 0"
        unfolding list_bit_test .
      from res have r: "pop_loop d ?i' a n s = Inr (a', n', s')"
        unfolding pop_loop_skip [OF lt False] .
      from i' bound have "unat n + (16 - ?i') < 2 ^ 32"
        by arith
      from "1.IH"(2) [OF lt t r this] i' show ?thesis
        by arith
    next
      case True
      then have t: "register_list d AND push_bit i 1 \<noteq> 0"
        unfolding list_bit_test .
      show ?thesis
      proof (cases "load a 0 s")
        case (Inl e)
        with res show ?thesis
          by (simp add: pop_loop_fault [OF lt True Inl])
      next
        case (Inr b)
        obtain x y where b: "b = (x, y)"
          by (cases b)
        note ld = Inr [unfolded b]
        let ?s = "if i = 15 then (cpu_set_gpr i x y)\<lparr>BRANCH_WAS_TAKEN := True\<rparr>
                  else cpu_set_gpr i x y"
        from res have r: "pop_loop d ?i' (a + 4) (n + 1) ?s = Inr (a', n', s')"
          unfolding pop_loop_take [OF lt True ld] .
        from lt bound have "unat n + 1 < 2 ^ 32"
          by arith
        then have n1: "unat (n + 1) = unat n + 1"
          by (simp add: unat_word_ariths)
        with i' bound lt have "unat (n + 1) + (16 - ?i') < 2 ^ 32"
          by arith
        from "1.IH"(1) [OF lt t Inr b [symmetric] refl refl r this] i' n1 lt show ?thesis
          by arith
      qed
    qed
  qed
qed

lemma pop_cost_constant:
  assumes "pop d s = Inr (s', c)"
  shows "c = TIMING_PC_UPDATE"
proof -
  from assms obtain a' n' s1 where l: "pop_loop d 0 (cpu_get_sp s) 0 s = Inr (a', n', s1)"
    and c: "c = (if 1 + n' + of_bool (BRANCH_WAS_TAKEN (cpu_set_sp a' s1)) \<noteq> 0
                 then TIMING_PC_UPDATE else 0)"
    by (auto simp: pop_def Let_def split: sum.splits)
  from pop_loop_count [OF l] have "unat n' \<le> 16"
    by simp
  then have "unat (1 + n' + of_bool (BRANCH_WAS_TAKEN (cpu_set_sp a' s1))) =
             1 + unat n' + of_bool (BRANCH_WAS_TAKEN (cpu_set_sp a' s1))"
    by (simp add: unat_word_ariths)
  then have "1 + n' + of_bool (BRANCH_WAS_TAKEN (cpu_set_sp a' s1)) \<noteq> 0"
    by (metis add_is_0 unat_0 zero_neq_one)
  with c show ?thesis
    by simp
qed

text \<open>
  C1. The claimed cost is 3 for \<open>pop {r0, r1}\<close>, 1 for \<open>pop {}\<close> and 5 for \<open>pop {r0, pc}\<close>.
  The code returns \<open>TIMING_PC_UPDATE\<close>, that is 2, in all three cases (and whenever it
  returns, by \<open>pop_cost_constant\<close>).
\<close>

theorem pop_cost_at_failing_inputs:
  "map_sum id snd (pop \<lparr>Rd = 0, Rm = 0, Rn = 0, imm = 0, register_list = 0x0003\<rparr> example_machine)
     = Inr 2
   \<and> pop_cycles_spec 0x0003 = 3
   \<and> map_sum id snd (pop \<lparr>Rd = 0, Rm = 0, Rn = 0, imm = 0, register_list = 0\<rparr> example_machine)
     = Inr 2
   \<and> pop_cycles_spec 0 = 1
   \<and> map_sum id snd (pop \<lparr>Rd = 0, Rm = 0, Rn = 0, imm = 0, register_list = 0x8001\<rparr> example_machine)
     = Inr 2
   \<and> pop_cycles_spec 0x8001 = 5"
  by (simp add: pop_def pop_loop.simps list_bit_test Let_def load_def cpu_get_sp_def
      cpu_set_sp_def cpu_get_gpr_def cpu_set_gpr_def example_machine_def example_region_def
      TIMING_PC_UPDATE_def pop_cycles_spec_def transferred_by_pop_def upt_0_8)

section \<open>Load multiple\<close>

lemma ldm_loop_done:
  assumes "\<not> i < 8"
  shows "ldm_loop d i a n s = Inr (a, n, s)"
  by (subst ldm_loop.simps) (simp only: assms if_False)

lemma ldm_loop_skip:
  assumes "i < 8" and "\<not> bit (register_list d) i"
  shows "ldm_loop d i a n s = ldm_loop d (i + 1) a n s"
  by (subst ldm_loop.simps) (simp only: assms list_bit_test if_True if_False)

lemma ldm_loop_take:
  assumes "i < 8" and "bit (register_list d) i" and "load a 0 s = Inr (data, s1)"
  shows "ldm_loop d i a n s = ldm_loop d (i + 1) (a + 4) (n + 1) (cpu_set_gpr i data s1)"
  by (subst ldm_loop.simps) (simp only: assms list_bit_test if_True sum.case prod.case)

lemma listed_from_done: "\<not> i < 8 \<Longrightarrow> filter P [i..<8] = []"
  by simp

lemma listed_from_skip: "i < 8 \<Longrightarrow> \<not> P i \<Longrightarrow> filter P [i..<8] = filter P [i + 1..<8]"
  by (simp add: upt_conv_Cons)

lemma listed_from_take: "i < 8 \<Longrightarrow> P i \<Longrightarrow> filter P [i..<8] = i # filter P [i + 1..<8]"
  by (simp add: upt_conv_Cons)

lemma ldm_loop_load_regs:
  "\<forall>k < length (filter (bit (register_list d)) [i..<8]).
      region_of s (a + 4 * of_nat k) \<noteq> Unmapped \<Longrightarrow>
   ldm_loop d i a n s =
     Inr (a + 4 * of_nat (length (filter (bit (register_list d)) [i..<8])),
          n + of_nat (length (filter (bit (register_list d)) [i..<8])),
          load_regs (filter (bit (register_list d)) [i..<8]) a s)"
proof (induction d i a n s rule: ldm_loop.induct)
  case (1 d i a n s)
  note mapped = "1.prems"
  show ?case
  proof (cases "i < 8")
    case False
    show ?thesis
      unfolding ldm_loop_done [OF False] listed_from_done [OF False] by simp
  next
    case lt: True
    show ?thesis
    proof (cases "bit (register_list d) i")
      case False
      then have t: "\<not> register_list d AND push_bit i 1 \<noteq> 0"
        unfolding list_bit_test .
      from mapped have "\<forall>k < length (filter (bit (register_list d)) [i + 1..<8]).
          region_of s (a + 4 * of_nat k) \<noteq> Unmapped"
        unfolding listed_from_skip [of i "bit (register_list d)", OF lt False] .
      from "1.IH"(2) [OF lt t this] show ?thesis
        unfolding ldm_loop_skip [OF lt False]
          listed_from_skip [of i "bit (register_list d)", OF lt False] .
    next
      case True
      then have t: "register_list d AND push_bit i 1 \<noteq> 0"
        unfolding list_bit_test .
      let ?rest = "filter (bit (register_list d)) [i + 1..<8]"
      note step = listed_from_take [of i "bit (register_list d)", OF lt True]
      from mapped have here: "region_of s a \<noteq> Unmapped"
        unfolding step by auto
      let ?s1 = "s\<lparr>accesses := accesses s @ [LoadEvent a 0]\<rparr>"
      from here have ld: "load a 0 s = Inr (cells s a, ?s1)"
        by (simp add: load_def)
      have "\<forall>k < length ?rest. region_of (cpu_set_gpr i (cells s a) ?s1) (a + 4 + 4 * of_nat k) \<noteq> Unmapped"
      proof (intro allI impI)
        fix k
        assume "k < length ?rest"
        with mapped have "region_of s (a + 4 * of_nat (Suc k)) \<noteq> Unmapped"
          unfolding step by auto
        then show "region_of (cpu_set_gpr i (cells s a) ?s1) (a + 4 + 4 * of_nat k) \<noteq> Unmapped"
          by (simp add: cpu_set_gpr_def algebra_simps)
      qed
      from "1.IH"(1) [OF lt t ld refl this] show ?thesis
        unfolding ldm_loop_take [OF lt True ld] step
        by (simp add: cpu_set_gpr_def algebra_simps)
    qed
  qed
qed

lemma load_regs_frame:
  "cells (load_regs rs a s) = cells s"
  "region_of (load_regs rs a s) = region_of s"
  "BRANCH_WAS_TAKEN (load_regs rs a s) = BRANCH_WAS_TAKEN s"
  by (induction rs arbitrary: a s) simp_all

lemma upt_0_Suc: "[0..<Suc m] = 0 # map Suc [0..<m]"
  by (simp add: upt_conv_Cons map_Suc_upt del: upt_Suc)

lemma load_regs_accesses:
  "accesses (load_regs rs a s) =
   accesses s @ map (\<lambda>k. LoadEvent (a + 4 * of_nat k) 0) [0..<length rs]"
proof (induction rs arbitrary: a s)
  case Nil
  show ?case by simp
next
  case (Cons r rs)
  show ?case
    by (simp add: Cons.IH upt_0_Suc o_def algebra_simps del: upt_Suc)
qed

lemma load_regs_other:
  "r \<notin> set rs \<Longrightarrow> gpr (load_regs rs a s) r = gpr s r"
  by (induction rs arbitrary: a s) auto

lemma load_regs_nth:
  "distinct rs \<Longrightarrow> k < length rs \<Longrightarrow>
   gpr (load_regs rs a s) (rs ! k) = cells s (a + 4 * of_nat k)"
proof (induction rs arbitrary: a s k)
  case Nil
  then show ?case by simp
next
  case (Cons r rs)
  show ?case
  proof (cases k)
    case 0
    with Cons.prems show ?thesis
      by (simp add: load_regs_other)
  next
    case (Suc j)
    with Cons.prems have "distinct rs" and "j < length rs"
      by simp_all
    from Cons.IH [OF this] Suc show ?thesis
      by (simp add: load_regs_frame algebra_simps)
  qed
qed

lemma transfer_list_props:
  "distinct (transfer_list rl)"
  "sorted (transfer_list rl)"
  "set (transfer_list rl) = {r. r < 8 \<and> bit rl r}"
  by (auto simp: transfer_list_def sorted_wrt_filter)

lemma base_bit_test: "(push_bit r 1 AND rl = 0) = (\<not> bit (rl::32 word) r)"
  by (metis list_bit_test and.commute)

text \<open>
  C5. Let \<open>rs\<close> be the registers among r0 to r7 that the register list names, in
  ascending order, \<open>N\<close> their number, and let the \<open>N\<close> words from the base address on be
  readable. Then \<open>ldm\<close> returns with cost \<open>1 + N\<close>; it has read the addresses \<open>base\<close>,
  \<open>base + 4\<close>, ... in this order, and nothing else; the \<open>k\<close>-th listed register holds the
  word that was at \<open>base + 4 * k\<close>, so the base register holds its loaded value when it is
  listed; when the base register is not in the list it holds \<open>base + 4 * N\<close>; every other
  register and the memory are unchanged.
\<close>

theorem ldm_ascending_with_writeback:
  assumes rs: "rs = transfer_list (register_list d)"
    and base: "base = cpu_get_gpr (Rn d) s"
    and mapped: "\<forall>k<length rs. region_of s (base + 4 * of_nat k) \<noteq> Unmapped"
  shows "\<exists>s'. ldm d s = Inr (s', 1 + of_nat (length rs))
           \<and> sorted rs \<and> distinct rs
           \<and> accesses s' = accesses s @ map (\<lambda>k. LoadEvent (base + 4 * of_nat k) 0) [0..<length rs]
           \<and> (\<forall>k<length rs. cpu_get_gpr (rs ! k) s' = cells s (base + 4 * of_nat k))
           \<and> (\<not> bit (register_list d) (Rn d) \<longrightarrow>
                 cpu_get_gpr (Rn d) s' = base + 4 * of_nat (length rs))
           \<and> (\<forall>r. r \<notin> set rs \<and> r \<noteq> Rn d \<longrightarrow> cpu_get_gpr r s' = cpu_get_gpr r s)
           \<and> cells s' = cells s"
proof -
  let ?L = "load_regs rs base s"
  let ?s' = "if push_bit (Rn d) 1 AND register_list d = 0
             then cpu_set_gpr (Rn d) (base + 4 * of_nat (length rs)) ?L else ?L"
  have d: "distinct rs" and srt: "sorted rs"
    unfolding rs by (rule transfer_list_props)+
  from mapped have "ldm_loop d 0 base 0 s = Inr (base + 4 * of_nat (length rs), 0 + of_nat (length rs), ?L)"
    unfolding rs transfer_list_def by (rule ldm_loop_load_regs)
  then have res: "ldm d s = Inr (?s', 1 + of_nat (length rs))"
    by (simp add: ldm_def Let_def base)
  have acc: "accesses ?s' = accesses s @ map (\<lambda>k. LoadEvent (base + 4 * of_nat k) 0) [0..<length rs]"
    by (simp add: load_regs_accesses cpu_set_gpr_def)
  have cl: "cells ?s' = cells s"
    by (simp add: load_regs_frame cpu_set_gpr_def)
  have listed: "\<forall>k<length rs. cpu_get_gpr (rs ! k) ?s' = cells s (base + 4 * of_nat k)"
  proof (intro allI impI)
    fix k
    assume k: "k < length rs"
    then have "rs ! k \<in> set rs"
      by simp
    then have "bit (register_list d) (rs ! k)"
      unfolding rs transfer_list_props by simp
    then have "push_bit (Rn d) 1 AND register_list d = 0 \<Longrightarrow> rs ! k \<noteq> Rn d"
      unfolding base_bit_test by auto
    then show "cpu_get_gpr (rs ! k) ?s' = cells s (base + 4 * of_nat k)"
      using load_regs_nth [OF d k, of base s]
      by (auto simp: cpu_get_gpr_def cpu_set_gpr_def)
  qed
  have wb: "\<not> bit (register_list d) (Rn d) \<longrightarrow>
      cpu_get_gpr (Rn d) ?s' = base + 4 * of_nat (length rs)"
    unfolding base_bit_test by (simp add: cpu_get_gpr_def cpu_set_gpr_def)
  have other: "\<forall>r. r \<notin> set rs \<and> r \<noteq> Rn d \<longrightarrow> cpu_get_gpr r ?s' = cpu_get_gpr r s"
    by (simp add: cpu_get_gpr_def cpu_set_gpr_def load_regs_other)
  from res srt d acc listed wb other cl show ?thesis
    by blast
qed

theorem ldm_ascending_with_writeback_witness:
  "\<exists>s'. ldm \<lparr>Rd = 0, Rm = 0, Rn = 0, imm = 0, register_list = 7\<rparr>
           (example_machine
              \<lparr>gpr := (gpr example_machine)(0 := 0x20000000),
               cells := (cells example_machine)
                 (0x20000000 := 0x100, 0x20000004 := 0x200, 0x20000008 := 0x300)\<rparr>)
          = Inr (s', 4)
        \<and> cpu_get_gpr 0 s' = 0x100 \<and> cpu_get_gpr 1 s' = 0x200 \<and> cpu_get_gpr 2 s' = 0x300"
proof -
  let ?d = "\<lparr>Rd = 0, Rm = 0, Rn = 0, imm = 0, register_list = 7\<rparr>"
  let ?m = "example_machine
              \<lparr>gpr := (gpr example_machine)(0 := 0x20000000),
               cells := (cells example_machine)
                 (0x20000000 := 0x100, 0x20000004 := 0x200, 0x20000008 := 0x300)\<rparr>"
  have rs: "[0, 1, 2] = transfer_list (register_list ?d)"
    by (simp add: transfer_list_def upt_0_8)
  have base: "0x20000000 = cpu_get_gpr (Rn ?d) ?m"
    by (simp add: cpu_get_gpr_def)
  have mapped: "\<forall>k<length [0, 1, 2::nat]. region_of ?m (0x20000000 + 4 * of_nat k) \<noteq> Unmapped"
  proof (intro allI impI)
    fix k :: nat
    assume "k < length [0, 1, 2::nat]"
    then have "k = 0 \<or> k = 1 \<or> k = 2"
      by auto
    then show "region_of ?m (0x20000000 + 4 * of_nat k) \<noteq> Unmapped"
      by (auto simp: example_machine_def example_region_def)
  qed
  from ldm_ascending_with_writeback [OF rs base mapped]
  obtain s' where r: "ldm ?d ?m = Inr (s', 1 + of_nat (length [0, 1, 2::nat]))"
    and l: "\<forall>k<length [0, 1, 2::nat]. cpu_get_gpr ([0, 1, 2] ! k) s' = cells ?m (0x20000000 + 4 * of_nat k)"
    by blast
  from l [rule_format, of 0] l [rule_format, of 1] l [rule_format, of 2]
  have "cpu_get_gpr 0 s' = 0x100 \<and> cpu_get_gpr 1 s' = 0x200 \<and> cpu_get_gpr 2 s' = 0x300"
    by simp
  with r show ?thesis
    by (intro exI [of _ s']) simp
qed

section \<open>Store multiple\<close>

lemma stm_loop_done:
  assumes "\<not> i < 8"
  shows "stm_loop d i a n s = Inr (a, n, s)"
  by (subst stm_loop.simps) (simp only: assms if_False)

lemma stm_loop_skip:
  assumes "i < 8" and "\<not> bit (register_list d) i"
  shows "stm_loop d i a n s = stm_loop d (i + 1) a n s"
  by (subst stm_loop.simps) (simp only: assms list_bit_test if_True if_False)

lemma stm_loop_malformed:
  assumes "Rn d < 8" and "bit (register_list d) (Rn d)"
  shows "stm_loop d (Rn d) a 0 s = Inl MalformedInstruction"
  by (subst stm_loop.simps) (simp only: assms list_bit_test if_True simp_thms)

lemma stm_loop_fault:
  assumes "i < 8" and "bit (register_list d) i" and "\<not> (i = Rn d \<and> n = 0)"
    and "store a (cpu_get_gpr i s) s = Inl e"
  shows "stm_loop d i a n s = Inl e"
  by (subst stm_loop.simps) (simp only: assms list_bit_test if_True if_False Let_def sum.case)

lemma stm_loop_take:
  assumes "i < 8" and "bit (register_list d) i" and "\<not> (i = Rn d \<and> n = 0)"
    and "store a (cpu_get_gpr i s) s = Inr s1"
  shows "stm_loop d i a n s = stm_loop d (i + 1) (a + 4) (n + 1) s1"
  by (subst stm_loop.simps) (simp only: assms list_bit_test if_True if_False Let_def sum.case)

lemma count_step:
  assumes "i < 8" and "unat (n::32 word) + (8 - i) < 2 ^ 32"
  shows "n + 1 \<noteq> 0" and "unat (n + 1) + (8 - (i + 1)) < 2 ^ 32"
proof -
  from assms have "unat n + 1 < 2 ^ 32"
    by arith
  then have n1: "unat (n + 1) = unat n + 1"
    by (simp add: unat_word_ariths)
  then show "n + 1 \<noteq> 0"
    by (metis Suc_eq_plus1 nat.distinct(1) unat_0)
  from n1 assms show "unat (n + 1) + (8 - (i + 1)) < 2 ^ 32"
    by arith
qed

lemma stm_loop_first_is_base:
  "n = 0 \<Longrightarrow> filter (bit (register_list d)) [i..<8] = Rn d # rest \<Longrightarrow>
   stm_loop d i a n s = Inl MalformedInstruction"
proof (induction d i a n s rule: stm_loop.induct)
  case (1 d i a n s)
  note n = "1.prems"(1) and first = "1.prems"(2)
  show ?case
  proof (cases "i < 8")
    case False
    with first show ?thesis
      by simp
  next
    case lt: True
    show ?thesis
    proof (cases "bit (register_list d) i")
      case False
      then have t: "\<not> register_list d AND push_bit i 1 \<noteq> 0"
        unfolding list_bit_test .
      from first have "filter (bit (register_list d)) [i + 1..<8] = Rn d # rest"
        unfolding listed_from_skip [of i "bit (register_list d)", OF lt False] .
      from "1.IH"(2) [OF lt t n this] show ?thesis
        unfolding stm_loop_skip [OF lt False] .
    next
      case True
      from first have "i = Rn d"
        unfolding listed_from_take [of i "bit (register_list d)", OF lt True] by simp
      with n lt True show ?thesis
        using stm_loop_malformed [of d a s] by simp
    qed
  qed
qed

lemma store_fault: "store a v s = Inl e \<Longrightarrow> e = MemoryFault a"
  by (simp add: store_def split: if_splits)

lemma stm_loop_never_malformed:
  "(n = 0 \<longrightarrow> (\<forall>rest. filter (bit (register_list d)) [i..<8] \<noteq> Rn d # rest)) \<Longrightarrow>
   unat n + (8 - i) < 2 ^ 32 \<Longrightarrow>
   stm_loop d i a n s \<noteq> Inl MalformedInstruction"
proof (induction d i a n s rule: stm_loop.induct)
  case (1 d i a n s)
  note first = "1.prems"(1) and bound = "1.prems"(2)
  show ?case
  proof (cases "i < 8")
    case False
    show ?thesis
      unfolding stm_loop_done [OF False] by simp
  next
    case lt: True
    show ?thesis
    proof (cases "bit (register_list d) i")
      case False
      then have t: "\<not> register_list d AND push_bit i 1 \<noteq> 0"
        unfolding list_bit_test .
      from first have f: "n = 0 \<longrightarrow> (\<forall>rest. filter (bit (register_list d)) [i + 1..<8] \<noteq> Rn d # rest)"
        unfolding listed_from_skip [of i "bit (register_list d)", OF lt False] .
      from bound have "unat n + (8 - (i + 1)) < 2 ^ 32"
        by arith
      from "1.IH"(2) [OF lt t f this] show ?thesis
        unfolding stm_loop_skip [OF lt False] .
    next
      case True
      then have t: "register_list d AND push_bit i 1 \<noteq> 0"
        unfolding list_bit_test .
      from first have ok: "\<not> (i = Rn d \<and> n = 0)"
        unfolding listed_from_take [of i "bit (register_list d)", OF lt True] by auto
      show ?thesis
      proof (cases "store a (cpu_get_gpr i s) s")
        case (Inl e)
        with store_fault [OF Inl] show ?thesis
          unfolding stm_loop_fault [OF lt True ok Inl] by simp
      next
        case (Inr s1)
        note c = count_step [OF lt bound]
        from c(1) have f: "n + 1 = 0 \<longrightarrow>
            (\<forall>rest. filter (bit (register_list d)) [i + 1..<8] \<noteq> Rn d # rest)"
          by simp
        from "1.IH"(1) [OF lt t ok refl Inr f c(2)] show ?thesis
          unfolding stm_loop_take [OF lt True ok Inr] .
      qed
    qed
  qed
qed

lemma stm_loop_store_regs:
  "(n = 0 \<longrightarrow> (\<forall>rest. filter (bit (register_list d)) [i..<8] \<noteq> Rn d # rest)) \<Longrightarrow>
   unat n + (8 - i) < 2 ^ 32 \<Longrightarrow>
   \<forall>k < length (filter (bit (register_list d)) [i..<8]). region_of s (a + 4 * of_nat k) = RAM \<Longrightarrow>
   stm_loop d i a n s =
     Inr (a + 4 * of_nat (length (filter (bit (register_list d)) [i..<8])),
          n + of_nat (length (filter (bit (register_list d)) [i..<8])),
          store_regs (filter (bit (register_list d)) [i..<8]) a s)"
proof (induction d i a n s rule: stm_loop.induct)
  case (1 d i a n s)
  note first = "1.prems"(1) and bound = "1.prems"(2) and ram = "1.prems"(3)
  show ?case
  proof (cases "i < 8")
    case False
    show ?thesis
      unfolding stm_loop_done [OF False] listed_from_done [OF False] by simp
  next
    case lt: True
    show ?thesis
    proof (cases "bit (register_list d) i")
      case False
      then have t: "\<not> register_list d AND push_bit i 1 \<noteq> 0"
        unfolding list_bit_test .
      note skip = listed_from_skip [of i "bit (register_list d)", OF lt False]
      from first have f: "n = 0 \<longrightarrow> (\<forall>rest. filter (bit (register_list d)) [i + 1..<8] \<noteq> Rn d # rest)"
        unfolding skip .
      from bound have b: "unat n + (8 - (i + 1)) < 2 ^ 32"
        by arith
      from ram have "\<forall>k < length (filter (bit (register_list d)) [i + 1..<8]).
          region_of s (a + 4 * of_nat k) = RAM"
        unfolding skip .
      from "1.IH"(2) [OF lt t f b this] show ?thesis
        unfolding stm_loop_skip [OF lt False] skip .
    next
      case True
      then have t: "register_list d AND push_bit i 1 \<noteq> 0"
        unfolding list_bit_test .
      let ?rest = "filter (bit (register_list d)) [i + 1..<8]"
      note step = listed_from_take [of i "bit (register_list d)", OF lt True]
      from first have ok: "\<not> (i = Rn d \<and> n = 0)"
        unfolding step by auto
      from ram have here: "region_of s a = RAM"
        unfolding step by auto
      let ?s1 = "s\<lparr>cells := (cells s)(a := gpr s i),
                   accesses := accesses s @ [StoreEvent a (gpr s i)]\<rparr>"
      from here have st: "store a (cpu_get_gpr i s) s = Inr ?s1"
        by (simp add: store_def cpu_get_gpr_def)
      note c = count_step [OF lt bound]
      from c(1) have f: "n + 1 = 0 \<longrightarrow> (\<forall>rest. ?rest \<noteq> Rn d # rest)"
        by simp
      have "\<forall>k < length ?rest. region_of ?s1 (a + 4 + 4 * of_nat k) = RAM"
      proof (intro allI impI)
        fix k
        assume "k < length ?rest"
        with ram have "region_of s (a + 4 * of_nat (Suc k)) = RAM"
          unfolding step by auto
        then show "region_of ?s1 (a + 4 + 4 * of_nat k) = RAM"
          by (simp add: algebra_simps)
      qed
      from "1.IH"(1) [OF lt t ok refl st f c(2) this] show ?thesis
        unfolding stm_loop_take [OF lt True ok st] step
        by (simp add: algebra_simps)
    qed
  qed
qed

lemma unat_word_offset:
  assumes "j < 2 ^ 30"
  shows "unat (4 * of_nat j :: 32 word) = 4 * j"
proof -
  from assms have "j mod 4294967296 = j" and "4 * j mod 4294967296 = 4 * j"
    by simp_all
  then show ?thesis
    by (simp add: unat_word_ariths unat_of_nat)
qed

lemma word_offsets_distinct:
  assumes "j < 2 ^ 30" and "k < 2 ^ 30"
    and eq: "(a::32 word) + 4 * of_nat j = a + 4 * of_nat k"
  shows "j = k"
proof -
  from eq have "unat (4 * of_nat j :: 32 word) = unat (4 * of_nat k :: 32 word)"
    by simp
  then show ?thesis
    unfolding unat_word_offset [OF assms(1)] unat_word_offset [OF assms(2)] by simp
qed

lemma store_regs_frame:
  "gpr (store_regs rs a s) = gpr s"
  "region_of (store_regs rs a s) = region_of s"
  "BRANCH_WAS_TAKEN (store_regs rs a s) = BRANCH_WAS_TAKEN s"
  by (induction rs arbitrary: a s) simp_all

lemma store_regs_accesses:
  "accesses (store_regs rs a s) =
   accesses s @ map (\<lambda>k. StoreEvent (a + 4 * of_nat k) (gpr s (rs ! k))) [0..<length rs]"
proof (induction rs arbitrary: a s)
  case Nil
  show ?case by simp
next
  case (Cons r rs)
  show ?case
    by (simp add: Cons.IH upt_0_Suc o_def algebra_simps del: upt_Suc)
qed

lemma store_regs_elsewhere:
  "\<forall>k<length rs. x \<noteq> a + 4 * of_nat k \<Longrightarrow> cells (store_regs rs a s) x = cells s x"
proof (induction rs arbitrary: a s)
  case Nil
  show ?case by simp
next
  case (Cons r rs)
  from Cons.prems have "x \<noteq> a"
    by fastforce
  moreover have "\<forall>k<length rs. x \<noteq> a + 4 + 4 * of_nat k"
  proof (intro allI impI)
    fix k
    assume "k < length rs"
    with Cons.prems have "x \<noteq> a + 4 * of_nat (Suc k)"
      by auto
    then show "x \<noteq> a + 4 + 4 * of_nat k"
      by (simp add: algebra_simps)
  qed
  ultimately show ?case
    by (simp add: Cons.IH)
qed

lemma store_regs_nth:
  "length rs \<le> 8 \<Longrightarrow> k < length rs \<Longrightarrow>
   cells (store_regs rs a s) (a + 4 * of_nat k) = gpr s (rs ! k)"
proof (induction rs arbitrary: a s k)
  case Nil
  then show ?case by simp
next
  case (Cons r rs)
  let ?s1 = "s\<lparr>cells := (cells s)(a := gpr s r),
               accesses := accesses s @ [StoreEvent a (gpr s r)]\<rparr>"
  show ?case
  proof (cases k)
    case 0
    have "\<forall>j<length rs. a \<noteq> a + 4 + 4 * of_nat j"
    proof (intro allI impI)
      fix j
      assume "j < length rs"
      with Cons.prems have "Suc j < 2 ^ 30"
        by simp
      then have "a + 4 * of_nat 0 \<noteq> a + 4 * of_nat (Suc j)"
        using word_offsets_distinct [of 0 "Suc j" a] by auto
      then show "a \<noteq> a + 4 + 4 * of_nat j"
        by (simp add: algebra_simps)
    qed
    then have "cells (store_regs rs (a + 4) ?s1) a = cells ?s1 a"
      by (rule store_regs_elsewhere)
    with 0 show ?thesis
      by simp
  next
    case (Suc j)
    with Cons.prems have "length rs \<le> 8" and "j < length rs"
      by simp_all
    from Cons.IH [OF this, of "a + 4" ?s1] Suc show ?thesis
      by (simp add: algebra_simps)
  qed
qed

lemma first_listed_iff:
  "(rs \<noteq> [] \<and> hd rs = r) = (\<exists>rest. rs = r # rest)"
  by (cases rs) auto

text \<open>
  C2 as stated: the fault occurs exactly when the base register is in the list and is not
  the first register stored. With base r0 and list \<open>{r0}\<close> the base is the first register
  stored, and the code stops with the malformed-instruction fault; with base r1 and list
  \<open>{r0, r1}\<close> the base is listed and not first, and the code stores both registers and
  returns with cost 3.
\<close>

theorem stm_fault_when_base_not_first_counterexample:
  "transfer_list 1 = [0]
   \<and> stm \<lparr>Rd = 0, Rm = 0, Rn = 0, imm = 0, register_list = 1\<rparr> example_machine
       = Inl MalformedInstruction
   \<and> transfer_list 3 = [0, 1]
   \<and> map_sum id snd
        (stm \<lparr>Rd = 0, Rm = 0, Rn = 1, imm = 0, register_list = 3\<rparr>
           (example_machine\<lparr>gpr := (gpr example_machine)(1 := 0x20000000)\<rparr>))
       = Inr 3"
  by (simp add: stm_def stm_loop.simps list_bit_test Let_def store_def cpu_get_gpr_def
      cpu_set_gpr_def example_machine_def example_region_def transfer_list_def upt_0_8)

text \<open>
  C2 as amended: \<open>stm\<close> stops with the malformed-instruction fault exactly when the base
  register is among the listed registers r0 to r7 and is the first (lowest) of them. In
  every other case, the base register being listed after another register included,
  there is no malformed-instruction fault, and when the \<open>N\<close> words from the base address
  on are writable, \<open>stm\<close> returns with cost \<open>1 + N\<close>, has stored the listed registers in
  ascending order at \<open>base\<close>, \<open>base + 4\<close>, ..., and has written \<open>base + 4 * N\<close> back to the
  base register, leaving the other registers as they were.
\<close>

theorem stm_malformed_iff_base_first:
  assumes rs: "rs = transfer_list (register_list d)"
    and base: "base = cpu_get_gpr (Rn d) s"
  shows "(stm d s = Inl MalformedInstruction) = (rs \<noteq> [] \<and> hd rs = Rn d)
       \<and> (\<not> (rs \<noteq> [] \<and> hd rs = Rn d) \<longrightarrow>
            (\<forall>k<length rs. region_of s (base + 4 * of_nat k) = RAM) \<longrightarrow>
            (\<exists>s'. stm d s = Inr (s', 1 + of_nat (length rs))
               \<and> sorted rs \<and> distinct rs
               \<and> accesses s' = accesses s @
                    map (\<lambda>k. StoreEvent (base + 4 * of_nat k) (cpu_get_gpr (rs ! k) s))
                      [0..<length rs]
               \<and> (\<forall>k<length rs. cells s' (base + 4 * of_nat k) = cpu_get_gpr (rs ! k) s)
               \<and> gpr s' = (gpr s)(Rn d := base + 4 * of_nat (length rs))))"
proof -
  let ?first = "rs \<noteq> [] \<and> hd rs = Rn d"
  note rs' = rs [unfolded transfer_list_def]
  have len: "length rs \<le> 8"
    unfolding rs' using length_filter_le [of "bit (register_list d)" "[0..<8]"] by simp
  have fault: "stm d s = Inl MalformedInstruction" if ?first
  proof -
    from that obtain rest where "rs = Rn d # rest"
      unfolding first_listed_iff ..
    then have "filter (bit (register_list d)) [0..<8] = Rn d # rest"
      unfolding rs' .
    from stm_loop_first_is_base [OF refl this]
    show ?thesis
      by (simp add: stm_def Let_def)
  qed
  have nofirst: "(0::32 word) = 0 \<longrightarrow>
      (\<forall>rest. filter (bit (register_list d)) [0..<8] \<noteq> Rn d # rest)" if "\<not> ?first"
    using that unfolding first_listed_iff rs' by simp
  have bound: "unat (0::32 word) + (8 - 0) < 2 ^ 32"
    by simp
  have nofault: "stm d s \<noteq> Inl MalformedInstruction" if "\<not> ?first"
  proof -
    from stm_loop_never_malformed [OF nofirst [OF that] bound]
    have "stm_loop d 0 base 0 s \<noteq> Inl MalformedInstruction" .
    then show ?thesis
      by (auto simp: stm_def Let_def base split: sum.splits)
  qed
  have iff: "(stm d s = Inl MalformedInstruction) = ?first"
    using fault nofault by blast
  have ok: "\<exists>s'. stm d s = Inr (s', 1 + of_nat (length rs))
               \<and> sorted rs \<and> distinct rs
               \<and> accesses s' = accesses s @
                    map (\<lambda>k. StoreEvent (base + 4 * of_nat k) (cpu_get_gpr (rs ! k) s))
                      [0..<length rs]
               \<and> (\<forall>k<length rs. cells s' (base + 4 * of_nat k) = cpu_get_gpr (rs ! k) s)
               \<and> gpr s' = (gpr s)(Rn d := base + 4 * of_nat (length rs))"
    if nf: "\<not> ?first" and ram: "\<forall>k<length rs. region_of s (base + 4 * of_nat k) = RAM"
  proof -
    let ?S = "store_regs rs base s"
    let ?s' = "cpu_set_gpr (Rn d) (base + 4 * of_nat (length rs)) ?S"
    from ram have ram': "\<forall>k < length (filter (bit (register_list d)) [0..<8]).
        region_of s (base + 4 * of_nat k) = RAM"
      unfolding rs' .
    from stm_loop_store_regs [OF nofirst [OF nf] bound ram']
    have "stm_loop d 0 base 0 s =
        Inr (base + 4 * of_nat (length rs), 0 + of_nat (length rs), ?S)"
      unfolding rs' .
    then have res: "stm d s = Inr (?s', 1 + of_nat (length rs))"
      by (simp add: stm_def Let_def base)
    have d: "distinct rs" and srt: "sorted rs"
      unfolding rs by (rule transfer_list_props)+
    have acc: "accesses ?s' = accesses s @
        map (\<lambda>k. StoreEvent (base + 4 * of_nat k) (cpu_get_gpr (rs ! k) s)) [0..<length rs]"
      by (simp add: store_regs_accesses cpu_set_gpr_def cpu_get_gpr_def)
    have cl: "\<forall>k<length rs. cells ?s' (base + 4 * of_nat k) = cpu_get_gpr (rs ! k) s"
      using store_regs_nth [OF len, of _ base s]
      by (simp add: cpu_set_gpr_def cpu_get_gpr_def)
    have g: "gpr ?s' = (gpr s)(Rn d := base + 4 * of_nat (length rs))"
      by (simp add: cpu_set_gpr_def store_regs_frame)
    from res srt d acc cl g show ?thesis
      by blast
  qed
  from iff ok show ?thesis
    by blast
qed

theorem stm_malformed_iff_base_first_witness:
  "stm \<lparr>Rd = 0, Rm = 0, Rn = 0, imm = 0, register_list = 1\<rparr> example_machine
     = Inl MalformedInstruction
   \<and> (\<exists>s'. stm \<lparr>Rd = 0, Rm = 0, Rn = 1, imm = 0, register_list = 3\<rparr>
              (example_machine\<lparr>gpr := (gpr example_machine)(1 := 0x20000000)\<rparr>)
            = Inr (s', 3)
          \<and> cells s' 0x20000000 = 0
          \<and> cells s' 0x20000004 = 0x20000000
          \<and> gpr s' 1 = 0x20000008)"
proof -
  let ?d0 = "\<lparr>Rd = 0, Rm = 0, Rn = 0, imm = 0, register_list = 1\<rparr>"
  let ?d1 = "\<lparr>Rd = 0, Rm = 0, Rn = 1, imm = 0, register_list = 3\<rparr>"
  let ?m = "example_machine\<lparr>gpr := (gpr example_machine)(1 := 0x20000000)\<rparr>"
  have rs0: "[0] = transfer_list (register_list ?d0)"
    by (simp add: transfer_list_def upt_0_8)
  from stm_malformed_iff_base_first [OF rs0 refl, of example_machine]
  have first: "stm ?d0 example_machine = Inl MalformedInstruction"
    by simp
  have rs1: "[0, 1] = transfer_list (register_list ?d1)"
    by (simp add: transfer_list_def upt_0_8)
  have base: "0x20000000 = cpu_get_gpr (Rn ?d1) ?m"
    by (simp add: cpu_get_gpr_def)
  have ram: "\<forall>k<length [0, 1::nat]. region_of ?m (0x20000000 + 4 * of_nat k) = RAM"
  proof (intro allI impI)
    fix k :: nat
    assume "k < length [0, 1::nat]"
    then have "k = 0 \<or> k = 1"
      by auto
    then show "region_of ?m (0x20000000 + 4 * of_nat k) = RAM"
      by (auto simp: example_machine_def example_region_def)
  qed
  have nf: "\<not> ([0, 1::nat] \<noteq> [] \<and> hd [0, 1] = Rn ?d1)"
    by simp
  from stm_malformed_iff_base_first [OF rs1 base] nf ram
  obtain s' where r: "stm ?d1 ?m = Inr (s', 1 + of_nat (length [0, 1::nat]))"
    and c: "\<forall>k<length [0, 1::nat]. cells s' (0x20000000 + 4 * of_nat k) = cpu_get_gpr ([0, 1] ! k) ?m"
    and g: "gpr s' = (gpr ?m)(Rn ?d1 := 0x20000000 + 4 * of_nat (length [0, 1::nat]))"
    by blast
  from c [rule_format, of 0] c [rule_format, of 1] g
  have "cells s' 0x20000000 = 0 \<and> cells s' 0x20000004 = 0x20000000 \<and> gpr s' 1 = 0x20000008"
    by (simp add: cpu_get_gpr_def example_machine_def)
  with r first show ?thesis
    by (intro conjI exI [of _ s']) simp_all
qed

section \<open>Push followed by pop\<close>

lemma push_all_low_and_lr:
  assumes ram: "\<And>k. 1 \<le> k \<Longrightarrow> k \<le> 9 \<Longrightarrow> region_of s (cpu_get_sp s - 4 * word_of_nat k) = RAM"
    and l1: "register_list d1 = 0x40FF"
  shows "push d1 s =
     Inr (s\<lparr>cells := (cells s)
               (gpr s 13 - 4 := gpr s 14, gpr s 13 - 8 := gpr s 7,
                gpr s 13 - 12 := gpr s 6, gpr s 13 - 16 := gpr s 5,
                gpr s 13 - 20 := gpr s 4, gpr s 13 - 24 := gpr s 3,
                gpr s 13 - 28 := gpr s 2, gpr s 13 - 32 := gpr s 1,
                gpr s 13 - 36 := gpr s 0),
             accesses := accesses s @
               [StoreEvent (gpr s 13 - 4) (gpr s 14), StoreEvent (gpr s 13 - 8) (gpr s 7),
                StoreEvent (gpr s 13 - 12) (gpr s 6), StoreEvent (gpr s 13 - 16) (gpr s 5),
                StoreEvent (gpr s 13 - 20) (gpr s 4), StoreEvent (gpr s 13 - 24) (gpr s 3),
                StoreEvent (gpr s 13 - 28) (gpr s 2), StoreEvent (gpr s 13 - 32) (gpr s 1),
                StoreEvent (gpr s 13 - 36) (gpr s 0)],
             gpr := (gpr s)(13 := gpr s 13 - 36)\<rparr>, 10)"
  using ram [of 1] ram [of 2] ram [of 3] ram [of 4] ram [of 5] ram [of 6] ram [of 7]
    ram [of 8] ram [of 9]
  by (simp add: push_def push_loop.simps list_bit_test l1 Let_def store_def cpu_get_sp_def
      cpu_set_sp_def cpu_get_gpr_def cpu_set_gpr_def)

lemma pop_all_low_and_pc:
  assumes ram: "\<And>k. 1 \<le> k \<Longrightarrow> k \<le> 9 \<Longrightarrow> region_of s (sp - 4 * word_of_nat k) \<noteq> Unmapped"
    and l2: "register_list d2 = 0x80FF"
    and sp: "cpu_get_sp s = sp - 36"
    and c: "cells s (sp - 36) = r0" "cells s (sp - 32) = r1" "cells s (sp - 28) = r2"
      "cells s (sp - 24) = r3" "cells s (sp - 20) = r4" "cells s (sp - 16) = r5"
      "cells s (sp - 12) = r6" "cells s (sp - 8) = r7" "cells s (sp - 4) = lr"
  shows "pop d2 s =
     Inr (s\<lparr>accesses := accesses s @
               [LoadEvent (sp - 36) 0, LoadEvent (sp - 32) 0, LoadEvent (sp - 28) 0,
                LoadEvent (sp - 24) 0, LoadEvent (sp - 20) 0, LoadEvent (sp - 16) 0,
                LoadEvent (sp - 12) 0, LoadEvent (sp - 8) 0, LoadEvent (sp - 4) 0],
             BRANCH_WAS_TAKEN := True,
             gpr := (gpr s)(0 := r0, 1 := r1, 2 := r2, 3 := r3, 4 := r4, 5 := r5, 6 := r6,
                            7 := r7, 15 := lr, 13 := sp)\<rparr>,
          TIMING_PC_UPDATE)"
  using ram [of 1] ram [of 2] ram [of 3] ram [of 4] ram [of 5] ram [of 6] ram [of 7]
    ram [of 8] ram [of 9] sp
  by (simp add: pop_def pop_loop.simps list_bit_test l2 Let_def load_def cpu_get_sp_def
      cpu_set_sp_def cpu_get_gpr_def cpu_set_gpr_def c numeral_2_eq_2 [symmetric])

text \<open>
  C7. Let the nine words below the stack pointer be writable. Then \<open>push {r0-r7, lr}\<close>
  returns, the \<open>pop {r0-r7, pc}\<close> that follows returns, and afterwards r0 to r7 and SP
  hold the values they had before the push, PC holds the value LR had before the push,
  and the branch-taken flag is set.
\<close>

theorem push_pop_roundtrip:
  assumes ram: "\<And>k. 1 \<le> k \<Longrightarrow> k \<le> 9 \<Longrightarrow> region_of s (cpu_get_sp s - 4 * word_of_nat k) = RAM"
    and l1: "register_list d1 = 0x40FF"
    and l2: "register_list d2 = 0x80FF"
  shows "\<exists>s1 s2 c1 c2. push d1 s = Inr (s1, c1) \<and> pop d2 s1 = Inr (s2, c2)
           \<and> (\<forall>r<8. cpu_get_gpr r s2 = cpu_get_gpr r s)
           \<and> cpu_get_sp s2 = cpu_get_sp s
           \<and> cpu_get_pc s2 = cpu_get_gpr 14 s
           \<and> BRANCH_WAS_TAKEN s2"
proof -
  let ?sp = "gpr s 13"
  let ?s1 = "s\<lparr>cells := (cells s)
               (gpr s 13 - 4 := gpr s 14, gpr s 13 - 8 := gpr s 7,
                gpr s 13 - 12 := gpr s 6, gpr s 13 - 16 := gpr s 5,
                gpr s 13 - 20 := gpr s 4, gpr s 13 - 24 := gpr s 3,
                gpr s 13 - 28 := gpr s 2, gpr s 13 - 32 := gpr s 1,
                gpr s 13 - 36 := gpr s 0),
             accesses := accesses s @
               [StoreEvent (gpr s 13 - 4) (gpr s 14), StoreEvent (gpr s 13 - 8) (gpr s 7),
                StoreEvent (gpr s 13 - 12) (gpr s 6), StoreEvent (gpr s 13 - 16) (gpr s 5),
                StoreEvent (gpr s 13 - 20) (gpr s 4), StoreEvent (gpr s 13 - 24) (gpr s 3),
                StoreEvent (gpr s 13 - 28) (gpr s 2), StoreEvent (gpr s 13 - 32) (gpr s 1),
                StoreEvent (gpr s 13 - 36) (gpr s 0)],
             gpr := (gpr s)(13 := gpr s 13 - 36)\<rparr>"
  let ?s2 = "?s1\<lparr>accesses := accesses ?s1 @
               [LoadEvent (?sp - 36) 0, LoadEvent (?sp - 32) 0, LoadEvent (?sp - 28) 0,
                LoadEvent (?sp - 24) 0, LoadEvent (?sp - 20) 0, LoadEvent (?sp - 16) 0,
                LoadEvent (?sp - 12) 0, LoadEvent (?sp - 8) 0, LoadEvent (?sp - 4) 0],
             BRANCH_WAS_TAKEN := True,
             gpr := (gpr ?s1)(0 := gpr s 0, 1 := gpr s 1, 2 := gpr s 2, 3 := gpr s 3,
                              4 := gpr s 4, 5 := gpr s 5, 6 := gpr s 6, 7 := gpr s 7,
                              15 := gpr s 14, 13 := ?sp)\<rparr>"
  have pu: "push d1 s = Inr (?s1, 10)"
    by (rule push_all_low_and_lr [OF ram l1])
  have ram1: "region_of ?s1 (?sp - 4 * word_of_nat k) \<noteq> Unmapped" if "1 \<le> k" and "k \<le> 9" for k
    using ram [OF that] by (simp add: cpu_get_sp_def cpu_get_gpr_def)
  have po: "pop d2 ?s1 = Inr (?s2, TIMING_PC_UPDATE)"
    by (rule pop_all_low_and_pc [OF ram1 l2]) (simp_all add: cpu_get_sp_def cpu_get_gpr_def)
  have low: "\<forall>r<8. cpu_get_gpr r ?s2 = cpu_get_gpr r s"
  proof (intro allI impI)
    fix r :: nat
    assume "r < 8"
    from low_bits_cases [OF this] show "cpu_get_gpr r ?s2 = cpu_get_gpr r s"
      by (auto simp: cpu_get_gpr_def)
  qed
  have rest: "cpu_get_sp ?s2 = cpu_get_sp s" "cpu_get_pc ?s2 = cpu_get_gpr 14 s"
      "BRANCH_WAS_TAKEN ?s2"
    by (simp_all add: cpu_get_sp_def cpu_get_pc_def cpu_get_gpr_def)
  from pu po low rest show ?thesis
    by blast
qed

theorem push_pop_roundtrip_witness:
  "\<exists>s1 s2 c1 c2.
     push \<lparr>Rd = 0, Rm = 0, Rn = 0, imm = 0, register_list = 0x40FF\<rparr> example_machine
       = Inr (s1, c1)
     \<and> pop \<lparr>Rd = 0, Rm = 0, Rn = 0, imm = 0, register_list = 0x80FF\<rparr> s1 = Inr (s2, c2)
     \<and> cpu_get_gpr 1 s2 = 0x20000001 \<and> cpu_get_gpr 2 s2 = 0xABCD
     \<and> cpu_get_sp s2 = 0x20000100 \<and> cpu_get_pc s2 = 0x101 \<and> BRANCH_WAS_TAKEN s2"
proof -
  let ?d1 = "\<lparr>Rd = 0, Rm = 0, Rn = 0, imm = 0, register_list = 0x40FF\<rparr>"
  let ?d2 = "\<lparr>Rd = 0, Rm = 0, Rn = 0, imm = 0, register_list = 0x80FF\<rparr>"
  have ram: "region_of example_machine (cpu_get_sp example_machine - 4 * word_of_nat k) = RAM"
    if "1 \<le> k" and "k \<le> 9" for k
  proof -
    from that have "k = 1 \<or> k = 2 \<or> k = 3 \<or> k = 4 \<or> k = 5 \<or> k = 6 \<or> k = 7 \<or> k = 8 \<or> k = 9"
      by arith
    then show ?thesis
      by (auto simp: example_machine_def example_region_def cpu_get_sp_def cpu_get_gpr_def)
  qed
  have l1: "register_list ?d1 = 0x40FF" and l2: "register_list ?d2 = 0x80FF"
    by simp_all
  from push_pop_roundtrip [OF ram l1 l2]
  obtain s1 s2 c1 c2 where r: "push ?d1 example_machine = Inr (s1, c1)" "pop ?d2 s1 = Inr (s2, c2)"
    and low: "\<forall>r<8. cpu_get_gpr r s2 = cpu_get_gpr r example_machine"
    and rest: "cpu_get_sp s2 = cpu_get_sp example_machine"
      "cpu_get_pc s2 = cpu_get_gpr 14 example_machine" "BRANCH_WAS_TAKEN s2"
    by blast
  from low [rule_format, of 1] low [rule_format, of 2] rest
  have "cpu_get_gpr 1 s2 = 0x20000001 \<and> cpu_get_gpr 2 s2 = 0xABCD
     \<and> cpu_get_sp s2 = 0x20000100 \<and> cpu_get_pc s2 = 0x101 \<and> BRANCH_WAS_TAKEN s2"
    by (simp add: example_machine_def cpu_get_sp_def cpu_get_gpr_def)
  with r show ?thesis
    by blast
qed

end
